theory Spec2Isabelle
  imports Main
begin

section \<open>Data model of \<^verbatim>\<open>rofm/classes/core/work/workload.py\<close>\<close>

text \<open>
  The module is modelled as it runs on the interpreters it was written for: Python 3.7
  to 3.9, where \<^verbatim>\<open>collections.Iterable\<close> exists, with assertions enabled. The tree
  linkage is that of anytree's \<^verbatim>\<open>NodeMixin\<close>, which compares nodes by identity; a node
  is identified with its address in the store.
\<close>

text \<open>
  \<^verbatim>\<open>WorkloadType\<close> is a string-valued enumeration whose members carry their own
  name as value (\<^verbatim>\<open>AutoName._generate_next_value_\<close> returns the name).
\<close>

datatype WorkloadType =
    username_mention | private_message | chat
  | parse_op | parse_for_reddit_domain_urls | parse_top_level_comments
  | parse_comment_for_table | parse_arbitrary_text_for_table | parse_table
  | parse_wide_table | perform_basic_roll | perform_compound_roll
  | roll_stats | roll_specific_request | roll_table | roll_this_die
  | respond_with_private_message_apology | default_request | follow_link

fun WorkloadType_name :: "WorkloadType \<Rightarrow> string" where
  "WorkloadType_name username_mention = ''username_mention''"
| "WorkloadType_name private_message = ''private_message''"
| "WorkloadType_name chat = ''chat''"
| "WorkloadType_name parse_op = ''parse_op''"
| "WorkloadType_name parse_for_reddit_domain_urls = ''parse_for_reddit_domain_urls''"
| "WorkloadType_name parse_top_level_comments = ''parse_top_level_comments''"
| "WorkloadType_name parse_comment_for_table = ''parse_comment_for_table''"
| "WorkloadType_name parse_arbitrary_text_for_table = ''parse_arbitrary_text_for_table''"
| "WorkloadType_name parse_table = ''parse_table''"
| "WorkloadType_name parse_wide_table = ''parse_wide_table''"
| "WorkloadType_name perform_basic_roll = ''perform_basic_roll''"
| "WorkloadType_name perform_compound_roll = ''perform_compound_roll''"
| "WorkloadType_name roll_stats = ''roll_stats''"
| "WorkloadType_name roll_specific_request = ''roll_specific_request''"
| "WorkloadType_name roll_table = ''roll_table''"
| "WorkloadType_name roll_this_die = ''roll_this_die''"
| "WorkloadType_name respond_with_private_message_apology = ''respond_with_private_message_apology''"
| "WorkloadType_name default_request = ''default_request''"
| "WorkloadType_name follow_link = ''follow_link''"

text \<open>
  Python values as far as the engine looks at them. \<open>PObj\<close> is an opaque object that is
  neither iterable nor a \<^verbatim>\<open>WorkNode\<close> (a praw \<^verbatim>\<open>Comment\<close>, say); \<open>PNode r\<close> is a
  reference to the \<^verbatim>\<open>WorkNode\<close> object stored at address \<open>r\<close>.
\<close>

datatype pyval =
    PNone
  | PInt int
  | PStr string
  | PObj nat
  | PKind WorkloadType
  | PNode nat
  | PList "pyval list"
  | PTuple "pyval list"
  | PDict "(pyval \<times> pyval) list"

datatype error =
    AssertionError
  | KeyError
  | TypeError
  | AttributeError
  | LoopError
  | TreeError
  | Raised string

text \<open>
  The dataclass \<^verbatim>\<open>Workload\<close>, and \<^verbatim>\<open>WorkNode(Workload, NodeMixin)\<close> which adds the
  name and the tree linkage kept by anytree's \<^verbatim>\<open>NodeMixin\<close>. \<^verbatim>\<open>output = None\<close> has no
  annotation, so it is a class attribute and no constructor parameter; an instance
  reads \<^verbatim>\<open>None\<close> until \<^verbatim>\<open>do_my_work\<close> assigns it. \<open>args\<close> and \<open>name\<close> hold whatever
  object the caller passed; \<open>work_type\<close> is taken to respect its annotation.
\<close>

record Workload =
  work_type :: WorkloadType
  args :: pyval
  kwargs :: "(string \<times> pyval) list"
  finished :: bool
  output' :: pyval

record WorkNode = Workload +
  name :: pyval
  parent :: "nat option"
  children :: "nat list"

text \<open>
  Objects live in a store: the object with address \<open>r\<close> is \<open>h ! r\<close>, and a constructor
  call allocates at address \<open>length h\<close>. Nothing is ever deallocated.
\<close>

type_synonym heap = "WorkNode list"

text \<open>
  A raw resolver is a Python function called as \<^verbatim>\<open>f(*args, **kwargs)\<close>: it may raise,
  and it may construct objects. A registered resolver is what the decorator leaves in
  \<^verbatim>\<open>work_resolution\<close>: a function returning the pair \<^verbatim>\<open>(new_work, output)\<close>.
\<close>

type_synonym raw_resolver =
  "pyval list \<Rightarrow> (string \<times> pyval) list \<Rightarrow> heap \<Rightarrow> (error + pyval) \<times> heap"

type_synonym resolver =
  "pyval list \<Rightarrow> (string \<times> pyval) list \<Rightarrow> heap \<Rightarrow> (error + pyval list \<times> pyval) \<times> heap"

type_synonym registry = "WorkloadType \<Rightarrow> resolver option"

section \<open>The resolver adapter\<close>

text \<open>
  \<^verbatim>\<open>split_iterable\<close>: one pass over the iterable, appending each item to one of two
  lists.
\<close>

fun split_loop :: "'a list \<Rightarrow> ('a \<Rightarrow> bool) \<Rightarrow> 'a list \<Rightarrow> 'a list \<Rightarrow> 'a list \<times> 'a list" where
  "split_loop [] split_condition list_satisfying list_not_satisfying =
     (list_satisfying, list_not_satisfying)"
| "split_loop (item # rest) split_condition list_satisfying list_not_satisfying =
     (if split_condition item
      then split_loop rest split_condition (list_satisfying @ [item]) list_not_satisfying
      else split_loop rest split_condition list_satisfying (list_not_satisfying @ [item]))"

definition split_iterable :: "'a list \<Rightarrow> ('a \<Rightarrow> bool) \<Rightarrow> 'a list \<times> 'a list" where
  "split_iterable iterable split_condition = split_loop iterable split_condition [] []"

text \<open>
  \<^verbatim>\<open>isinstance(v, collections.Iterable)\<close>: strings, lists, tuples and dictionaries (which
  yield their keys) are iterable, and so is a \<^verbatim>\<open>WorkloadType\<close> member (the enumeration
  derives from \<^verbatim>\<open>str\<close>). A \<^verbatim>\<open>WorkNode\<close> defines no \<^verbatim>\<open>__iter__\<close>. Iterating a string
  yields its characters as one-character strings.
\<close>

fun is_Iterable :: "pyval \<Rightarrow> bool" where
  "is_Iterable (PStr s) = True"
| "is_Iterable (PKind k) = True"
| "is_Iterable (PList xs) = True"
| "is_Iterable (PTuple xs) = True"
| "is_Iterable (PDict kvs) = True"
| "is_Iterable v = False"

fun is_WorkNode :: "pyval \<Rightarrow> bool" where
  "is_WorkNode (PNode r) = True"
| "is_WorkNode v = False"

fun iterate :: "pyval \<Rightarrow> pyval list" where
  "iterate (PStr s) = map (\<lambda>c. PStr [c]) s"
| "iterate (PKind k) = map (\<lambda>c. PStr [c]) (WorkloadType_name k)"
| "iterate (PList xs) = xs"
| "iterate (PTuple xs) = xs"
| "iterate (PDict kvs) = map fst kvs"
| "iterate v = []"

text \<open>
  \<^verbatim>\<open>decorated_function\<close>, the wrapper that \<^verbatim>\<open>workload_resolver\<close> puts around \<open>f\<close>. An
  exception of \<open>f\<close> passes through.
\<close>

definition decorated_function :: "raw_resolver \<Rightarrow> resolver" where
  "decorated_function f args' kwargs' h =
     (case f args' kwargs' h of
        (Inl e, h') \<Rightarrow> (Inl e, h')
      | (Inr base_function_return_value, h') \<Rightarrow>
          (if base_function_return_value = PNone then (Inr ([], PNone), h')
           else if \<not> is_Iterable base_function_return_value then
             (if is_WorkNode base_function_return_value
              then (Inr ([base_function_return_value], PNone), h')
              else (Inr ([], base_function_return_value), h'))
           else
             (case split_iterable (iterate base_function_return_value) is_WorkNode of
                (workload, outputs) \<Rightarrow> (Inr (workload, PList outputs), h'))))"

section \<open>The registry\<close>

text \<open>
  \<^verbatim>\<open>_register_resolver\<close>: the \<^verbatim>\<open>assert\<close> fails before the dictionary is written.
\<close>

definition register_resolver ::
  "registry \<Rightarrow> WorkloadType \<Rightarrow> resolver \<Rightarrow> bool \<Rightarrow> (error + unit) \<times> registry" where
  "register_resolver work_resolution wt registered_resolver override =
     (if override \<or> work_resolution wt = None
      then (Inr (), work_resolution(wt \<mapsto> registered_resolver))
      else (Inl AssertionError, work_resolution))"

text \<open>\<^verbatim>\<open>work_resolution[work_type]\<close>: a missing key raises \<^verbatim>\<open>KeyError\<close>.\<close>

definition lookup :: "registry \<Rightarrow> WorkloadType \<Rightarrow> error + resolver" where
  "lookup work_resolution wt =
     (case work_resolution wt of None \<Rightarrow> Inl KeyError | Some r \<Rightarrow> Inr r)"

text \<open>
  \<^verbatim>\<open>workload_resolver(*work_types, override)(f)\<close>: registers the wrapped function for
  each listed type in turn; an assertion failure leaves the earlier ones registered.
\<close>

fun register_each ::
  "registry \<Rightarrow> WorkloadType list \<Rightarrow> resolver \<Rightarrow> bool \<Rightarrow> (error + unit) \<times> registry" where
  "register_each work_resolution [] g override = (Inr (), work_resolution)"
| "register_each work_resolution (wt # wts) g override =
     (case register_resolver work_resolution wt g override of
        (Inl e, reg') \<Rightarrow> (Inl e, reg')
      | (Inr u, reg') \<Rightarrow> register_each reg' wts g override)"

definition workload_resolver ::
  "registry \<Rightarrow> WorkloadType list \<Rightarrow> bool \<Rightarrow> raw_resolver \<Rightarrow> (error + unit) \<times> registry" where
  "workload_resolver work_resolution work_types override f =
     (if work_types = [] then (Inl AssertionError, work_resolution)
      else register_each work_resolution work_types (decorated_function f) override)"

section \<open>Tree linkage: anytree's \<^verbatim>\<open>NodeMixin\<close>\<close>

text \<open>
  \<^verbatim>\<open>iter_path_reverse\<close> walks from a node up through the \<^verbatim>\<open>parent\<close> attributes. The
  walk is cut after as many steps as there are objects.
\<close>

fun iter_path_reverse :: "nat \<Rightarrow> heap \<Rightarrow> nat \<Rightarrow> nat list" where
  "iter_path_reverse 0 h node = [node]"
| "iter_path_reverse (Suc k) h node =
     node # (case parent (h ! node) of None \<Rightarrow> [] | Some p \<Rightarrow> iter_path_reverse k h p)"

text \<open>\<^verbatim>\<open>__check_loop\<close>: a node is neither its own parent nor the parent of an ancestor.\<close>

definition check_loop :: "heap \<Rightarrow> nat \<Rightarrow> nat option \<Rightarrow> error option" where
  "check_loop h self v =
     (case v of
        None \<Rightarrow> None
      | Some node \<Rightarrow>
          if node = self then Some LoopError
          else if self \<in> set (iter_path_reverse (length h) h node) then Some LoopError
          else None)"

text \<open>\<^verbatim>\<open>__detach\<close> and \<^verbatim>\<open>__attach\<close>, with their assertions that the tree is not corrupt.\<close>

definition detach :: "heap \<Rightarrow> nat \<Rightarrow> nat option \<Rightarrow> error + heap" where
  "detach h self p =
     (case p of
        None \<Rightarrow> Inr h
      | Some q \<Rightarrow>
          if self \<notin> set (children (h ! q)) then Inl AssertionError
          else
            (let h1 = h[q := (h ! q)\<lparr>children := filter (\<lambda>c. c \<noteq> self) (children (h ! q))\<rparr>]
             in Inr (h1[self := (h1 ! self)\<lparr>parent := None\<rparr>])))"

definition attach :: "heap \<Rightarrow> nat \<Rightarrow> nat option \<Rightarrow> error + heap" where
  "attach h self p =
     (case p of
        None \<Rightarrow> Inr h
      | Some q \<Rightarrow>
          if self \<in> set (children (h ! q)) then Inl AssertionError
          else
            (let h1 = h[q := (h ! q)\<lparr>children := children (h ! q) @ [self]\<rparr>]
             in Inr (h1[self := (h1 ! self)\<lparr>parent := Some q\<rparr>])))"

text \<open>The setter of \<^verbatim>\<open>NodeMixin.parent\<close>, for a value that is \<^verbatim>\<open>None\<close> or a node.\<close>

definition set_parent :: "heap \<Rightarrow> nat \<Rightarrow> nat option \<Rightarrow> error + heap" where
  "set_parent h self v =
     (if parent (h ! self) = v then Inr h
      else
        (case check_loop h self v of
           Some e \<Rightarrow> Inl e
         | None \<Rightarrow>
             (case detach h self (parent (h ! self)) of
                Inl e \<Rightarrow> Inl e
              | Inr h1 \<Rightarrow> attach h1 self v)))"

text \<open>
  The setter applied to an arbitrary object: anything that is neither \<^verbatim>\<open>None\<close> nor a
  node raises \<^verbatim>\<open>TreeError\<close>.
\<close>

fun assign_parent :: "heap \<Rightarrow> nat \<Rightarrow> pyval \<Rightarrow> error + heap" where
  "assign_parent h self PNone = set_parent h self None"
| "assign_parent h self (PNode p) = set_parent h self (Some p)"
| "assign_parent h self v = Inl TreeError"

section \<open>Construction of a \<^verbatim>\<open>WorkNode\<close>\<close>

text \<open>
  Python binds the arguments of a call to the parameters of a signature
  \<^verbatim>\<open>def f(p1, ..., pn, *, k1, ..., km)\<close>: too many positional arguments, a keyword
  that names no parameter, and a parameter given both ways each raise
  \<^verbatim>\<open>TypeError\<close>.
\<close>

definition bind_arguments ::
  "string list \<Rightarrow> string list \<Rightarrow> 'v list \<Rightarrow> (string \<times> 'v) list \<Rightarrow> error + (string \<Rightarrow> 'v option)" where
  "bind_arguments positional keyword_only pos kw =
     (if length positional < length pos then Inl TypeError
      else if \<exists>k \<in> set (map fst kw). k \<notin> set positional \<union> set keyword_only then Inl TypeError
      else if \<exists>k \<in> set (map fst kw). k \<in> set (take (length pos) positional) then Inl TypeError
      else Inr (map_of (zip positional pos @ kw)))"

text \<open>Truth value of an object, as \<^verbatim>\<open>name if name else ...\<close> tests it.\<close>

fun truthy :: "pyval \<Rightarrow> bool" where
  "truthy PNone = False"
| "truthy (PInt i) = (i \<noteq> 0)"
| "truthy (PStr s) = (s \<noteq> [])"
| "truthy (PList xs) = (xs \<noteq> [])"
| "truthy (PTuple xs) = (xs \<noteq> [])"
| "truthy (PDict kvs) = (kvs \<noteq> [])"
| "truthy v = True"

text \<open>The default name \<^verbatim>\<open>f"'{work_type.name}'"\<close>.\<close>

definition default_name :: "WorkloadType \<Rightarrow> string" where
  "default_name wt = [CHR 0x27] @ WorkloadType_name wt @ [CHR 0x27]"

text \<open>
  \<^verbatim>\<open>WorkNode.__init__(self, work_type, args=(), *, name=None, parent=None)\<close>, called
  with \<open>work_type\<close> in first position, the further positional arguments \<open>pos\<close> and the
  keyword arguments \<open>kw\<close>. \<^verbatim>\<open>super().__init__(work_type, args)\<close> leaves \<open>kwargs\<close> at its
  default, the empty dictionary; then the parent is set, then the name.
\<close>

definition WorkNode_init ::
  "WorkloadType \<Rightarrow> pyval list \<Rightarrow> (string \<times> pyval) list \<Rightarrow> heap \<Rightarrow> (error + nat) \<times> heap" where
  "WorkNode_init wt pos kw h =
     (case bind_arguments [''work_type'', ''args''] [''name'', ''parent''] (PKind wt # pos) kw of
        Inl e \<Rightarrow> (Inl e, h)
      | Inr b \<Rightarrow>
          (let args_v = (case b ''args'' of None \<Rightarrow> PTuple [] | Some v \<Rightarrow> v);
               name_v = (case b ''name'' of None \<Rightarrow> PNone | Some v \<Rightarrow> v);
               parent_v = (case b ''parent'' of None \<Rightarrow> PNone | Some v \<Rightarrow> v);
               self = length h;
               h1 = h @ [\<lparr>work_type = wt, args = args_v, kwargs = [], finished = False,
                          output' = PNone, name = PNone, parent = None, children = []\<rparr>]
           in (case assign_parent h1 self parent_v of
                 Inl e \<Rightarrow> (Inl e, h1)
               | Inr h2 \<Rightarrow>
                   (Inr self,
                    h2[self := (h2 ! self)\<lparr>name := (if truthy name_v then name_v
                                                     else PStr (default_name wt))\<rparr>]))))"

section \<open>Execution\<close>

text \<open>
  The loop \<^verbatim>\<open>for child in new_work: child.parent = self\<close>. An item that is no node has
  no \<^verbatim>\<open>parent\<close> attribute to set.
\<close>

fun adopt :: "heap \<Rightarrow> pyval list \<Rightarrow> nat \<Rightarrow> (error + unit) \<times> heap" where
  "adopt h [] self = (Inr (), h)"
| "adopt h (PNode child # rest) self =
     (case set_parent h child (Some self) of
        Inl e \<Rightarrow> (Inl e, h)
      | Inr h' \<Rightarrow> adopt h' rest self)"
| "adopt h (v # rest) self = (Inl AttributeError, h)"

text \<open>
  \<^verbatim>\<open>do_my_work\<close>: look the resolver up, call it as
  \<^verbatim>\<open>resolver(*self.args, **self.kwargs)\<close>, unpack the pair into \<^verbatim>\<open>new_work\<close> and
  \<^verbatim>\<open>self.output\<close>, adopt the new work, set \<^verbatim>\<open>finished\<close>. Nothing reads \<^verbatim>\<open>finished\<close>.
\<close>

definition do_my_work :: "registry \<Rightarrow> heap \<Rightarrow> nat \<Rightarrow> (error + unit) \<times> heap" where
  "do_my_work work_resolution h self =
     (case work_resolution (work_type (h ! self)) of
        None \<Rightarrow> (Inl KeyError, h)
      | Some resolver \<Rightarrow>
          if \<not> is_Iterable (args (h ! self)) then (Inl TypeError, h)
          else
            (case resolver (iterate (args (h ! self))) (kwargs (h ! self)) h of
               (Inl e, h1) \<Rightarrow> (Inl e, h1)
             | (Inr (new_work, out), h1) \<Rightarrow>
                 (case adopt (h1[self := (h1 ! self)\<lparr>output' := out\<rparr>]) new_work self of
                    (Inl e, h2) \<Rightarrow> (Inl e, h2)
                  | (Inr u, h2) \<Rightarrow> (Inr (), h2[self := (h2 ! self)\<lparr>finished := True\<rparr>]))))"

text \<open>
  \<^verbatim>\<open>for node in PreOrderIter(self): node.do_my_work()\<close>. anytree's generator
  \<^verbatim>\<open>PreOrderIter._iter(children)\<close> yields a child, and only when it is resumed reads
  \<^verbatim>\<open>child.children\<close> and descends; so the children a node received while it was being
  worked on are seen. The tree can grow without end, hence the fuel: \<open>None\<close> means that
  the fuel ran out. The third component is the log of the nodes on which
  \<^verbatim>\<open>do_my_work\<close> was called, in call order.
\<close>

fun iter_work ::
  "nat \<Rightarrow> registry \<Rightarrow> heap \<Rightarrow> nat list \<Rightarrow> ((error + unit) \<times> heap \<times> nat list) option" where
  "iter_work fuel wr h [] = Some (Inr (), h, [])"
| "iter_work 0 wr h (child # rest) = None"
| "iter_work (Suc fuel) wr h (child # rest) =
     (case do_my_work wr h child of
        (Inl e, h1) \<Rightarrow> Some (Inl e, h1, [child])
      | (Inr u, h1) \<Rightarrow>
          (case iter_work fuel wr h1 (children (h1 ! child)) of
             None \<Rightarrow> None
           | Some (Inl e, h2, log1) \<Rightarrow> Some (Inl e, h2, child # log1)
           | Some (Inr u, h2, log1) \<Rightarrow>
               (case iter_work fuel wr h2 rest of
                  None \<Rightarrow> None
                | Some (r, h3, log2) \<Rightarrow> Some (r, h3, child # log1 @ log2))))"

definition do_all_work ::
  "nat \<Rightarrow> registry \<Rightarrow> heap \<Rightarrow> nat \<Rightarrow> ((error + unit) \<times> heap \<times> nat list) option" where
  "do_all_work fuel wr h self = iter_work fuel wr h [self]"

section \<open>Vocabulary of the properties\<close>

text \<open>
  \<open>preorder h cs l\<close>: \<open>l\<close> lists, in pre-order, the nodes of the forest that hangs in
  store \<open>h\<close> under the roots \<open>cs\<close>, children in the order of the \<^verbatim>\<open>children\<close> lists.
\<close>

inductive preorder :: "heap \<Rightarrow> nat list \<Rightarrow> nat list \<Rightarrow> bool" where
  preorder_Nil: "preorder h [] []"
| preorder_Cons:
    "preorder h (children (h ! c)) l1 \<Longrightarrow> preorder h cs l2 \<Longrightarrow> preorder h (c # cs) (c # l1 @ l2)"

text \<open>No reference in the store dangles.\<close>

definition heap_ok :: "heap \<Rightarrow> bool" where
  "heap_ok h \<longleftrightarrow>
     (\<forall>i < length h.
        (\<forall>p. parent (h ! i) = Some p \<longrightarrow> p < length h) \<and>
        (\<forall>c \<in> set (children (h ! i)). c < length h))"

text \<open>
  A node as \<^verbatim>\<open>WorkNode(work_type, args, name=...)\<close> constructs it when no parent is
  given.
\<close>

definition fresh_node :: "WorkNode \<Rightarrow> bool" where
  "fresh_node n \<longleftrightarrow> parent n = None \<and> children n = [] \<and> \<not> finished n \<and> output' n = PNone"

text \<open>
  The resolver contract: a resolver leaves the existing objects alone, constructs
  parentless nodes only, and the new work it returns consists of nodes it has just
  constructed.
\<close>

definition resolver_contract :: "resolver \<Rightarrow> bool" where
  "resolver_contract r \<longleftrightarrow>
     (\<forall>as kw h res h'. r as kw h = (res, h') \<longrightarrow>
        (\<exists>new. h' = h @ new \<and> list_all fresh_node new) \<and>
        (\<forall>new_work out. res = Inr (new_work, out) \<longrightarrow>
           (\<forall>v \<in> set new_work. \<exists>c. v = PNode c \<and> length h \<le> c \<and> c < length h')))"

definition registry_ok :: "registry \<Rightarrow> bool" where
  "registry_ok wr \<longleftrightarrow> (\<forall>wt r. wr wt = Some r \<longrightarrow> resolver_contract r)"


text \<open>
  What a call of \<open>iter_work\<close> on the roots \<open>cs\<close> establishes, when it starts in store \<open>h\<close>
  where the forest under \<open>cs\<close> has the pre-order listing \<open>l\<close>, and ends with result
  \<open>r\<close>, store \<open>h'\<close> and log \<open>log\<close>: nodes that are not in the log are untouched, the
  log is an initial segment of the pre-order listing \<open>l'\<close> of the forest as it is in
  \<open>h'\<close> (all of it when the call succeeded), every node worked on successfully is
  finished, and the node whose work failed is as it was before.
\<close>

definition iter_post ::
  "heap \<Rightarrow> nat list \<Rightarrow> nat list \<Rightarrow> (error + unit) \<Rightarrow> heap \<Rightarrow> nat list \<Rightarrow> bool" where
  "iter_post h cs l r h' log \<longleftrightarrow>
     heap_ok h' \<and> length h \<le> length h' \<and>
     (\<forall>i<length h. i \<notin> set log \<longrightarrow> h' ! i = h ! i) \<and>
     set log \<subseteq> set l \<union> {length h..<length h'} \<and>
     (\<exists>l'. preorder h' cs l' \<and> distinct l' \<and> set l \<subseteq> set l' \<and>
           set l' \<subseteq> set l \<union> {length h..<length h'} \<and>
           (\<exists>rest. l' = log @ rest) \<and> (r = Inr () \<longrightarrow> log = l')) \<and>
     (\<forall>n \<in> set (if r = Inr () then log else butlast log). finished (h' ! n)) \<and>
     (r \<noteq> Inr () \<longrightarrow> log \<noteq> [] \<and>
        (last log < length h \<longrightarrow> h' ! last log = h ! last log) \<and>
        (length h \<le> last log \<longrightarrow> children (h' ! last log) = [] \<and> \<not> finished (h' ! last log) \<and>
            output' (h' ! last log) = PNone))"

section \<open>Resolvers and trees for the scenarios\<close>

text \<open>
  Resolvers of the shapes found in \<^verbatim>\<open>workload.py\<close>. \<open>spawns ks extra\<close> constructs one
  parentless node for each work type in \<open>ks\<close> and returns them in a list, followed by
  the values \<open>extra\<close> (\<^verbatim>\<open>scan_top_level_comments\<close> and \<^verbatim>\<open>process_username_mention\<close>
  return such collections of new nodes); \<open>returns v\<close> returns the value \<open>v\<close>;
  \<open>raises e\<close> raises.
\<close>

fun construct_all :: "WorkloadType list \<Rightarrow> heap \<Rightarrow> pyval list \<times> heap" where
  "construct_all [] h = ([], h)"
| "construct_all (k # ks) h =
     (case WorkNode_init k [] [] h of
        (Inl e, h1) \<Rightarrow> ([], h1)
      | (Inr c, h1) \<Rightarrow> (case construct_all ks h1 of (vs, h2) \<Rightarrow> (PNode c # vs, h2)))"

definition spawns :: "WorkloadType list \<Rightarrow> pyval list \<Rightarrow> raw_resolver" where
  "spawns ks extra as kw h =
     (case construct_all ks h of (vs, h') \<Rightarrow> (Inr (PList (vs @ extra)), h'))"

definition returns :: "pyval \<Rightarrow> raw_resolver" where
  "returns v as kw h = (Inr v, h)"

definition raises :: "error \<Rightarrow> raw_resolver" where
  "raises e as kw h = (Inl e, h)"

text \<open>
  A registry for the scenarios. As in \<^verbatim>\<open>workload.py\<close>, where the resolver of
  \<^verbatim>\<open>parse_arbitrary_text_for_table\<close> is commented out, that work type has no resolver
  although the resolver of \<^verbatim>\<open>parse_comment_for_table\<close> creates nodes of it.
\<close>

definition test_registry :: registry where
  "test_registry =
     [parse_op \<mapsto> decorated_function (spawns [parse_table, parse_table] []),
      parse_table \<mapsto> decorated_function (returns (PStr ''leaf'')),
      roll_table \<mapsto> decorated_function (returns PNone),
      parse_wide_table \<mapsto> decorated_function (spawns [roll_table] [PInt 7]),
      username_mention \<mapsto> decorated_function (spawns [parse_table, follow_link, parse_table] []),
      follow_link \<mapsto> decorated_function (raises (Raised ''link'')),
      parse_comment_for_table \<mapsto> decorated_function (spawns [parse_arbitrary_text_for_table] [])]"

text \<open>A node without arguments and with the default name, to write stores down.\<close>

definition plain_node :: "WorkloadType \<Rightarrow> bool \<Rightarrow> pyval \<Rightarrow> nat option \<Rightarrow> nat list \<Rightarrow> WorkNode" where
  "plain_node wt fin out par kids =
     \<lparr>work_type = wt, args = PTuple [], kwargs = [], finished = fin, output' = out,
      name = PStr (default_name wt), parent = par, children = kids\<rparr>"

text \<open>What the adapter makes of the returned string \<^verbatim>\<open>"leaf"\<close>.\<close>

definition leaf_output :: pyval where
  "leaf_output = PList [PStr ''l'', PStr ''e'', PStr ''a'', PStr ''f'']"

section \<open>Properties of the adapter and the registry\<close>

lemma split_loop_filter:
  "split_loop xs P ys zs = (ys @ filter P xs, zs @ filter (\<lambda>x. \<not> P x) xs)"
  by (induction xs arbitrary: ys zs) simp_all

lemma split_iterable_filter:
  "split_iterable xs P = (filter P xs, filter (\<lambda>x. \<not> P x) xs)"
  by (simp add: split_iterable_def split_loop_filter)

section \<open>Tree linkage and execution: supporting lemmas\<close>

lemma nth_update_if: "(xs[q := x]) ! i = (if i = q \<and> q < length xs then x else xs ! i)"
  by (cases "q < length xs") (auto simp: nth_list_update list_update_beyond)

lemma detach_length: "detach h c p = Inr h' \<Longrightarrow> length h' = length h"
  by (auto simp: detach_def Let_def split: option.splits if_splits)

lemma attach_length: "attach h c p = Inr h' \<Longrightarrow> length h' = length h"
  by (auto simp: attach_def Let_def split: option.splits if_splits)

lemma set_parent_length: "set_parent h c v = Inr h' \<Longrightarrow> length h' = length h"
  by (auto simp: set_parent_def split: option.splits if_splits sum.splits
      dest!: detach_length attach_length)

lemma detach_link:
  "detach h c p = Inr h' \<Longrightarrow>
     h' ! i = (h ! i)\<lparr>parent := parent (h' ! i), children := children (h' ! i)\<rparr>"
  by (auto simp: detach_def Let_def nth_update_if split: option.splits if_splits)

lemma attach_link:
  "attach h c p = Inr h' \<Longrightarrow>
     h' ! i = (h ! i)\<lparr>parent := parent (h' ! i), children := children (h' ! i)\<rparr>"
  by (auto simp: attach_def Let_def nth_update_if split: option.splits if_splits)

lemma set_parent_link:
  assumes "set_parent h c v = Inr h'"
  shows "h' ! i = (h ! i)\<lparr>parent := parent (h' ! i), children := children (h' ! i)\<rparr>"
proof (cases "parent (h ! c) = v")
  case True
  with assms show ?thesis by (simp add: set_parent_def)
next
  case False
  with assms obtain h1 where d: "detach h c (parent (h ! c)) = Inr h1" and a: "attach h1 c v = Inr h'"
    by (auto simp: set_parent_def split: option.splits sum.splits)
  have "h' ! i = (h1 ! i)\<lparr>parent := parent (h' ! i), children := children (h' ! i)\<rparr>"
    by (rule attach_link [OF a])
  also have "h1 ! i = (h ! i)\<lparr>parent := parent (h1 ! i), children := children (h1 ! i)\<rparr>"
    by (rule detach_link [OF d])
  finally show ?thesis by simp
qed

lemma adopt_length: "adopt h ws c = (Inr u, h') \<Longrightarrow> length h' = length h"
  by (induction h ws c rule: adopt.induct) (auto split: sum.splits dest: set_parent_length)

lemma adopt_link:
  "adopt h ws c = (Inr u, h') \<Longrightarrow>
     h' ! i = (h ! i)\<lparr>parent := parent (h' ! i), children := children (h' ! i)\<rparr>"
proof (induction h ws c rule: adopt.induct)
  case (2 h child rest self)
  then obtain h1 where s: "set_parent h child (Some self) = Inr h1" and a: "adopt h1 rest self = (Inr u, h')"
    by (auto split: sum.splits)
  have "h' ! i = (h1 ! i)\<lparr>parent := parent (h' ! i), children := children (h' ! i)\<rparr>"
    using 2 s a by simp
  also have "h1 ! i = (h ! i)\<lparr>parent := parent (h1 ! i), children := children (h1 ! i)\<rparr>"
    by (rule set_parent_link [OF s])
  finally show ?case by simp
qed auto

lemma do_my_work_output:
  assumes "wr (work_type (h ! self)) = Some r"
    and "r (iterate (args (h ! self))) (kwargs (h ! self)) h = (Inr (new_work, out), h1)"
    and "self < length h1"
    and "do_my_work wr h self = (Inr u, h2)"
  shows "output' (h2 ! self) = out \<and> finished (h2 ! self)"
proof -
  from assms obtain g where it: "is_Iterable (args (h ! self))"
    and a: "adopt (h1[self := (h1 ! self)\<lparr>output' := out\<rparr>]) new_work self = (Inr (), g)"
    and h2: "h2 = g[self := (g ! self)\<lparr>finished := True\<rparr>]"
    by (auto simp: do_my_work_def split: if_splits sum.splits prod.splits)
  have len: "length g = length h1" using adopt_length [OF a] by simp
  have eq: "g ! self = ((h1[self := (h1 ! self)\<lparr>output' := out\<rparr>]) ! self)
            \<lparr>parent := parent (g ! self), children := children (g ! self)\<rparr>"
    by (rule adopt_link [OF a])
  have "output' (g ! self) = out"
    by (subst eq) (simp add: assms(3))
  then show ?thesis using h2 len assms(3) by simp
qed



lemma iter_path_reverse_bound:
  assumes "\<forall>i<n. \<forall>p. parent (h ! i) = Some p \<longrightarrow> p < n"
  shows "node < n \<Longrightarrow> x \<in> set (iter_path_reverse k h node) \<Longrightarrow> x < n"
proof (induction k arbitrary: node)
  case 0
  then show ?case by simp
next
  case (Suc k)
  show ?case
  proof (cases "parent (h ! node)")
    case None
    then show ?thesis using Suc.prems by simp
  next
    case (Some p)
    then have "p < n" using assms Suc.prems(1) by simp
    with Suc Some show ?thesis by auto
  qed
qed

lemma set_parent_same: "parent (h ! k) = v \<Longrightarrow> set_parent h k v = Inr h"
  by (simp add: set_parent_def)

lemma set_parent_fresh:
  assumes "parent (g ! k) = None" and "k \<noteq> c"
    and "k \<notin> set (iter_path_reverse (length g) g c)" and "k \<notin> set (children (g ! c))"
  shows "set_parent g k (Some c) =
           Inr (g[c := (g ! c)\<lparr>children := children (g ! c) @ [k]\<rparr>, k := (g ! k)\<lparr>parent := Some c\<rparr>])"
  using assms by (simp add: set_parent_def check_loop_def detach_def attach_def Let_def nth_update_if)

lemma adopt_fresh:
  assumes "c < n0"
  shows "\<lbrakk>n0 \<le> length g;
          \<forall>i<n0. \<forall>p. parent (g ! i) = Some p \<longrightarrow> p < n0;
          \<forall>v\<in>set ws. \<exists>k. v = PNode k \<and> n0 \<le> k \<and> k < length g;
          \<forall>k. n0 \<le> k \<and> k < length g \<longrightarrow>
               (parent (g ! k) = None \<and> k \<notin> set (children (g ! c))) \<or>
               (parent (g ! k) = Some c \<and> k \<in> set (children (g ! c)))\<rbrakk>
     \<Longrightarrow> \<exists>g' ks. adopt g ws c = (Inr (), g') \<and> length g' = length g \<and>
            g' ! c = (g ! c)\<lparr>children := children (g ! c) @ ks\<rparr> \<and>
            distinct ks \<and> set ks \<subseteq> {n0..<length g} \<and> set ks \<inter> set (children (g ! c)) = {} \<and>
            (\<forall>i<n0. i \<noteq> c \<longrightarrow> g' ! i = g ! i) \<and>
            (\<forall>k. n0 \<le> k \<and> k < length g \<longrightarrow>
                 g' ! k = g ! k \<or> g' ! k = (g ! k)\<lparr>parent := Some c\<rparr>)"
proof (induction ws arbitrary: g)
  case Nil
  show ?case by (rule exI [of _ g], rule exI [of _ "[]"]) simp
next
  case (Cons v rest)
  from Cons.prems(3) obtain k where v: "v = PNode k" and k: "n0 \<le> k" "k < length g"
    by auto
  have kc: "k \<noteq> c" using assms k by simp
  have rest: "\<forall>v\<in>set rest. \<exists>k. v = PNode k \<and> n0 \<le> k \<and> k < length g"
    using Cons.prems(3) by simp
  have "(parent (g ! k) = None \<and> k \<notin> set (children (g ! c))) \<or>
        (parent (g ! k) = Some c \<and> k \<in> set (children (g ! c)))"
    using Cons.prems(4) k by simp
  then consider (new) "parent (g ! k) = None" "k \<notin> set (children (g ! c))"
    | (old) "parent (g ! k) = Some c" "k \<in> set (children (g ! c))"
    by (elim disjE conjE)
  then show ?case
  proof cases
    case old
    then have "set_parent g k (Some c) = Inr g" by (simp add: set_parent_same)
    then have "adopt g (v # rest) c = adopt g rest c" by (simp add: v)
    with Cons.IH [OF Cons.prems(1,2) rest Cons.prems(4)] show ?thesis by (simp only:)
  next
    case new
    have path: "k \<notin> set (iter_path_reverse (length g) g c)"
    proof
      assume "k \<in> set (iter_path_reverse (length g) g c)"
      then have "k < n0" by (rule iter_path_reverse_bound [OF Cons.prems(2) assms])
      with k(1) show False by simp
    qed
    define g1 where "g1 = g[c := (g ! c)\<lparr>children := children (g ! c) @ [k]\<rparr>, k := (g ! k)\<lparr>parent := Some c\<rparr>]"
    have sp: "set_parent g k (Some c) = Inr g1"
      unfolding g1_def by (rule set_parent_fresh [OF new(1) kc path new(2)])
    have len1: "length g1 = length g" by (simp add: g1_def)
    have cg: "c < length g" using assms Cons.prems(1) by simp
    have g1c: "g1 ! c = (g ! c)\<lparr>children := children (g ! c) @ [k]\<rparr>"
      using kc cg by (simp add: g1_def nth_update_if)
    have g1k: "g1 ! k = (g ! k)\<lparr>parent := Some c\<rparr>"
      using k by (simp add: g1_def nth_update_if)
    have g1o: "\<And>i. i \<noteq> c \<Longrightarrow> i \<noteq> k \<Longrightarrow> g1 ! i = g ! i"
      by (simp add: g1_def nth_update_if)
    have p1: "n0 \<le> length g1" using Cons.prems(1) len1 by simp
    have p2: "\<forall>i<n0. \<forall>p. parent (g1 ! i) = Some p \<longrightarrow> p < n0"
    proof (intro allI impI)
      fix i p assume i: "i < n0" and pp: "parent (g1 ! i) = Some p"
      have "i \<noteq> k" using i k by simp
      then have "parent (g1 ! i) = parent (g ! i)"
        using g1c g1o by (cases "i = c") simp_all
      with pp Cons.prems(2) i show "p < n0" by simp
    qed
    have p3: "\<forall>v\<in>set rest. \<exists>k. v = PNode k \<and> n0 \<le> k \<and> k < length g1"
      using rest len1 by simp
    have p4: "\<forall>k'. n0 \<le> k' \<and> k' < length g1 \<longrightarrow>
               (parent (g1 ! k') = None \<and> k' \<notin> set (children (g1 ! c))) \<or>
               (parent (g1 ! k') = Some c \<and> k' \<in> set (children (g1 ! c)))"
    proof (intro allI impI)
      fix k' assume k': "n0 \<le> k' \<and> k' < length g1"
      show "(parent (g1 ! k') = None \<and> k' \<notin> set (children (g1 ! c))) \<or>
               (parent (g1 ! k') = Some c \<and> k' \<in> set (children (g1 ! c)))"
      proof (cases "k' = k")
        case True
        then show ?thesis by (simp add: g1c g1k)
      next
        case False
        have "k' \<noteq> c" using k' assms by simp
        then have e: "g1 ! k' = g ! k'" using False g1o by simp
        have "(parent (g ! k') = None \<and> k' \<notin> set (children (g ! c))) \<or>
              (parent (g ! k') = Some c \<and> k' \<in> set (children (g ! c)))"
          using Cons.prems(4) k' len1 by simp
        then show ?thesis using False by (simp add: e g1c)
      qed
    qed
    from Cons.IH [OF p1 p2 p3 p4] obtain g' ks where
      a: "adopt g1 rest c = (Inr (), g')" and l: "length g' = length g1"
      and c': "g' ! c = (g1 ! c)\<lparr>children := children (g1 ! c) @ ks\<rparr>"
      and d: "distinct ks" and s: "set ks \<subseteq> {n0..<length g1}"
      and dj: "set ks \<inter> set (children (g1 ! c)) = {}"
      and o: "\<forall>i<n0. i \<noteq> c \<longrightarrow> g' ! i = g1 ! i"
      and f: "\<forall>k. n0 \<le> k \<and> k < length g1 \<longrightarrow> g' ! k = g1 ! k \<or> g' ! k = (g1 ! k)\<lparr>parent := Some c\<rparr>"
      by blast
    have r1: "adopt g (v # rest) c = (Inr (), g')" using sp a by (simp add: v)
    have r2: "length g' = length g" using l len1 by simp
    have r3: "g' ! c = (g ! c)\<lparr>children := children (g ! c) @ (k # ks)\<rparr>"
      using c' by (simp add: g1c)
    have r4: "distinct (k # ks)" using d dj by (auto simp: g1c)
    have r5: "set (k # ks) \<subseteq> {n0..<length g}" using s k len1 by auto
    have r6: "set (k # ks) \<inter> set (children (g ! c)) = {}" using dj new(2) by (auto simp: g1c)
    have r7: "\<forall>i<n0. i \<noteq> c \<longrightarrow> g' ! i = g ! i"
    proof (intro allI impI)
      fix i assume "i < n0" "i \<noteq> c"
      then show "g' ! i = g ! i" using o g1o [of i] k by simp
    qed
    have r8: "\<forall>k'. n0 \<le> k' \<and> k' < length g \<longrightarrow> g' ! k' = g ! k' \<or> g' ! k' = (g ! k')\<lparr>parent := Some c\<rparr>"
    proof (intro allI impI)
      fix k' assume k': "n0 \<le> k' \<and> k' < length g"
      then have "k' \<noteq> c" using assms by simp
      from f k' len1 have "g' ! k' = g1 ! k' \<or> g' ! k' = (g1 ! k')\<lparr>parent := Some c\<rparr>" by simp
      then show "g' ! k' = g ! k' \<or> g' ! k' = (g ! k')\<lparr>parent := Some c\<rparr>"
        using g1k g1o [OF \<open>k' \<noteq> c\<close>] by (cases "k' = k") auto
    qed
    show ?thesis
      by (intro exI [of _ g'] exI [of _ "k # ks"] conjI) (fact r1 r2 r3 r4 r5 r6 r7 r8)+
  qed
qed

lemma heap_okD:
  assumes "heap_ok h" and "i < length h"
  shows "parent (h ! i) = Some p \<Longrightarrow> p < length h"
    and "c \<in> set (children (h ! i)) \<Longrightarrow> c < length h"
  using assms unfolding heap_ok_def by blast+

lemma heap_okI:
  assumes "\<And>i p. i < length h \<Longrightarrow> parent (h ! i) = Some p \<Longrightarrow> p < length h"
    and "\<And>i c. i < length h \<Longrightarrow> c \<in> set (children (h ! i)) \<Longrightarrow> c < length h"
  shows "heap_ok h"
  using assms unfolding heap_ok_def by blast

lemma heap_ok_append_fresh:
  assumes "heap_ok h" and "list_all fresh_node new"
  shows "heap_ok (h @ new)"
proof (rule heap_okI)
  fix i p assume i: "i < length (h @ new)" and p: "parent ((h @ new) ! i) = Some p"
  show "p < length (h @ new)"
  proof (cases "i < length h")
    case True
    then have "parent (h ! i) = Some p" using p by (simp add: nth_append)
    then have "p < length h" by (rule heap_okD(1) [OF assms(1) True])
    then show ?thesis by simp
  next
    case False
    then have "(h @ new) ! i = new ! (i - length h)" and "i - length h < length new"
      using i by (simp_all add: nth_append)
    then have "fresh_node ((h @ new) ! i)" using assms(2) by (simp add: list_all_length)
    then show ?thesis using p by (simp add: fresh_node_def)
  qed
next
  fix i c assume i: "i < length (h @ new)" and c: "c \<in> set (children ((h @ new) ! i))"
  show "c < length (h @ new)"
  proof (cases "i < length h")
    case True
    then have "c \<in> set (children (h ! i))" using c by (simp add: nth_append)
    then have "c < length h" by (rule heap_okD(2) [OF assms(1) True])
    then show ?thesis by simp
  next
    case False
    then have "(h @ new) ! i = new ! (i - length h)" and "i - length h < length new"
      using i by (simp_all add: nth_append)
    then have "fresh_node ((h @ new) ! i)" using assms(2) by (simp add: list_all_length)
    then show ?thesis using c by (simp add: fresh_node_def)
  qed
qed

lemma resolver_contractD:
  assumes "resolver_contract r" and "r as kw h = (res, h1)"
  shows "\<exists>new. h1 = h @ new \<and> list_all fresh_node new"
    and "res = Inr (new_work, out) \<Longrightarrow> v \<in> set new_work \<Longrightarrow> \<exists>k. v = PNode k \<and> length h \<le> k \<and> k < length h1"
proof -
  from assms have *: "(\<exists>new. h1 = h @ new \<and> list_all fresh_node new) \<and>
        (\<forall>new_work out. res = Inr (new_work, out) \<longrightarrow>
           (\<forall>v \<in> set new_work. \<exists>c. v = PNode c \<and> length h \<le> c \<and> c < length h1))"
    unfolding resolver_contract_def by (elim allE [of _ as] allE [of _ kw] allE [of _ h] allE [of _ res] allE [of _ h1]) simp
  from * show "\<exists>new. h1 = h @ new \<and> list_all fresh_node new" by (rule conjunct1)
  assume "res = Inr (new_work, out)" "v \<in> set new_work"
  with * show "\<exists>k. v = PNode k \<and> length h \<le> k \<and> k < length h1" by simp
qed

lemma adopt_after_resolver:
  fixes out :: pyval
  assumes ok: "heap_ok h" and c: "c < length h"
    and new: "list_all fresh_node new"
    and nw: "\<forall>v\<in>set new_work. \<exists>k. v = PNode k \<and> length h \<le> k \<and> k < length (h @ new)"
  defines "g \<equiv> (h @ new)[c := ((h @ new) ! c)\<lparr>output' := out\<rparr>]"
  shows "\<exists>g' ks. adopt g new_work c = (Inr (), g') \<and> length g' = length (h @ new) \<and>
            g' ! c = (h ! c)\<lparr>output' := out, children := children (h ! c) @ ks\<rparr> \<and>
            distinct ks \<and> set ks \<subseteq> {length h..<length (h @ new)} \<and>
            (\<forall>i<length h. i \<noteq> c \<longrightarrow> g' ! i = h ! i) \<and>
            (\<forall>k. length h \<le> k \<and> k < length (h @ new) \<longrightarrow>
                 fresh_node (g' ! k) \<or> (\<exists>n. fresh_node n \<and> g' ! k = n\<lparr>parent := Some c\<rparr>))"
proof -
  have lg: "length g = length (h @ new)" by (simp add: g_def)
  have gc: "g ! c = (h ! c)\<lparr>output' := out\<rparr>" using c by (simp add: g_def nth_append)
  have go: "\<And>i. i < length h \<Longrightarrow> i \<noteq> c \<Longrightarrow> g ! i = h ! i"
    by (simp add: g_def nth_append nth_update_if)
  have gf: "\<And>k. length h \<le> k \<Longrightarrow> k < length (h @ new) \<Longrightarrow> fresh_node (g ! k)"
  proof -
    fix k assume k: "length h \<le> k" "k < length (h @ new)"
    then have "g ! k = new ! (k - length h)" "k - length h < length new"
      using c by (simp_all add: g_def nth_append nth_update_if)
    then show "fresh_node (g ! k)" using new by (simp add: list_all_length)
  qed
  have a1: "length h \<le> length g" by (simp add: lg)
  have a2: "\<forall>i<length h. \<forall>p. parent (g ! i) = Some p \<longrightarrow> p < length h"
  proof (intro allI impI)
    fix i p assume i: "i < length h" and p: "parent (g ! i) = Some p"
    have "parent (g ! i) = parent (h ! i)" using go [OF i] gc by (cases "i = c") simp_all
    then show "p < length h" using heap_okD(1) [OF ok i] p by simp
  qed
  have a3: "\<forall>v\<in>set new_work. \<exists>k. v = PNode k \<and> length h \<le> k \<and> k < length g"
    using nw by (simp add: lg)
  have a4: "\<forall>k. length h \<le> k \<and> k < length g \<longrightarrow>
               (parent (g ! k) = None \<and> k \<notin> set (children (g ! c))) \<or>
               (parent (g ! k) = Some c \<and> k \<in> set (children (g ! c)))"
  proof (intro allI impI)
    fix k assume k: "length h \<le> k \<and> k < length g"
    then have "fresh_node (g ! k)" using gf lg by simp
    then have "parent (g ! k) = None" by (simp add: fresh_node_def)
    moreover have "k \<notin> set (children (g ! c))"
    proof
      assume "k \<in> set (children (g ! c))"
      then have "k \<in> set (children (h ! c))" by (simp add: gc)
      then have "k < length h" by (rule heap_okD(2) [OF ok c])
      with k show False by simp
    qed
    ultimately show "(parent (g ! k) = None \<and> k \<notin> set (children (g ! c))) \<or>
               (parent (g ! k) = Some c \<and> k \<in> set (children (g ! c)))" by simp
  qed
  from adopt_fresh [OF c a1 a2 a3 a4] obtain g' ks where
    r: "adopt g new_work c = (Inr (), g')" and l: "length g' = length g"
    and c': "g' ! c = (g ! c)\<lparr>children := children (g ! c) @ ks\<rparr>"
    and d: "distinct ks" and s: "set ks \<subseteq> {length h..<length g}"
    and o: "\<forall>i<length h. i \<noteq> c \<longrightarrow> g' ! i = g ! i"
    and f: "\<forall>k. length h \<le> k \<and> k < length g \<longrightarrow> g' ! k = g ! k \<or> g' ! k = (g ! k)\<lparr>parent := Some c\<rparr>"
    by blast
  have r2: "length g' = length (h @ new)" using l lg by simp
  have r3: "g' ! c = (h ! c)\<lparr>output' := out, children := children (h ! c) @ ks\<rparr>"
    using c' by (simp add: gc)
  have r5: "set ks \<subseteq> {length h..<length (h @ new)}" using s lg by simp
  have r6: "\<forall>i<length h. i \<noteq> c \<longrightarrow> g' ! i = h ! i" using o go by simp
  have r7: "\<forall>k. length h \<le> k \<and> k < length (h @ new) \<longrightarrow>
                 fresh_node (g' ! k) \<or> (\<exists>n. fresh_node n \<and> g' ! k = n\<lparr>parent := Some c\<rparr>)"
  proof (intro allI impI)
    fix k assume k: "length h \<le> k \<and> k < length (h @ new)"
    then have fr: "fresh_node (g ! k)" using gf by simp
    from f k lg have "g' ! k = g ! k \<or> g' ! k = (g ! k)\<lparr>parent := Some c\<rparr>" by simp
    then show "fresh_node (g' ! k) \<or> (\<exists>n. fresh_node n \<and> g' ! k = n\<lparr>parent := Some c\<rparr>)"
    proof
      assume "g' ! k = g ! k"
      then show ?thesis using fr by simp
    next
      assume "g' ! k = (g ! k)\<lparr>parent := Some c\<rparr>"
      then have "fresh_node (g ! k) \<and> g' ! k = (g ! k)\<lparr>parent := Some c\<rparr>" using fr by simp
      then show ?thesis by (intro disjI2 exI [of _ "g ! k"])
    qed
  qed
  show ?thesis
    by (intro exI [of _ g'] exI [of _ ks] conjI) (fact r r2 r3 d r5 r6 r7)+
qed

lemma do_my_work_cases:
  assumes "do_my_work wr h c = (res, h')"
  obtains (unregistered) "wr (work_type (h ! c)) = None" "res = Inl KeyError" "h' = h"
  | (bad_args) r where "wr (work_type (h ! c)) = Some r" "\<not> is_Iterable (args (h ! c))"
      "res = Inl TypeError" "h' = h"
  | (raised) r e where "wr (work_type (h ! c)) = Some r" "is_Iterable (args (h ! c))"
      "r (iterate (args (h ! c))) (kwargs (h ! c)) h = (Inl e, h')" "res = Inl e"
  | (adopt_failed) r new_work out h1 e where "wr (work_type (h ! c)) = Some r"
      "is_Iterable (args (h ! c))"
      "r (iterate (args (h ! c))) (kwargs (h ! c)) h = (Inr (new_work, out), h1)"
      "adopt (h1[c := (h1 ! c)\<lparr>output' := out\<rparr>]) new_work c = (Inl e, h')" "res = Inl e"
  | (worked) r new_work out h1 g where "wr (work_type (h ! c)) = Some r"
      "is_Iterable (args (h ! c))"
      "r (iterate (args (h ! c))) (kwargs (h ! c)) h = (Inr (new_work, out), h1)"
      "adopt (h1[c := (h1 ! c)\<lparr>output' := out\<rparr>]) new_work c = (Inr (), g)"
      "res = Inr ()" "h' = g[c := (g ! c)\<lparr>finished := True\<rparr>]"
proof (cases "wr (work_type (h ! c))")
  case None
  with assms have "res = Inl KeyError" "h' = h" by (simp_all add: do_my_work_def)
  with None show ?thesis by (rule unregistered)
next
  case (Some r)
  show ?thesis
  proof (cases "is_Iterable (args (h ! c))")
    case False
    with assms Some have "res = Inl TypeError" "h' = h" by (simp_all add: do_my_work_def)
    with Some False show ?thesis by (rule bad_args)
  next
    case True
    obtain rr h1 where call: "r (iterate (args (h ! c))) (kwargs (h ! c)) h = (rr, h1)"
      by (cases "r (iterate (args (h ! c))) (kwargs (h ! c)) h")
    show ?thesis
    proof (cases rr)
      case (Inl e)
      with assms Some True call have "res = Inl e" "h' = h1" by (simp_all add: do_my_work_def)
      with Some True call Inl show ?thesis by (intro raised [of r e]) simp_all
    next
      case (Inr pr)
      obtain new_work out where pr: "pr = (new_work, out)" by (cases pr)
      obtain ar g where ad: "adopt (h1[c := (h1 ! c)\<lparr>output' := out\<rparr>]) new_work c = (ar, g)"
        by (cases "adopt (h1[c := (h1 ! c)\<lparr>output' := out\<rparr>]) new_work c")
      show ?thesis
      proof (cases ar)
        case (Inl e)
        with assms Some True call Inr pr ad have "res = Inl e" "h' = g"
          by (simp_all add: do_my_work_def)
        with Some True call Inr pr ad Inl show ?thesis
          by (intro adopt_failed [of r new_work out h1 e]) simp_all
      next
        case (Inr u)
        with assms Some True call \<open>rr = Inr pr\<close> pr ad
        have "res = Inr ()" "h' = g[c := (g ! c)\<lparr>finished := True\<rparr>]"
          by (simp_all add: do_my_work_def)
        with Some True call \<open>rr = Inr pr\<close> pr ad Inr show ?thesis
          by (intro worked [of r new_work out h1 g]) simp_all
      qed
    qed
  qed
qed

lemma do_my_work_success:
  assumes rk: "registry_ok wr" and ok: "heap_ok h" and c: "c < length h"
    and run: "do_my_work wr h c = (Inr u, h')"
  shows "\<exists>out ks. length h \<le> length h' \<and>
           h' ! c = (h ! c)\<lparr>output' := out, children := children (h ! c) @ ks, finished := True\<rparr> \<and>
           distinct ks \<and> set ks \<subseteq> {length h..<length h'} \<and>
           (\<forall>i<length h. i \<noteq> c \<longrightarrow> h' ! i = h ! i) \<and>
           (\<forall>k. length h \<le> k \<and> k < length h' \<longrightarrow>
                children (h' ! k) = [] \<and> \<not> finished (h' ! k) \<and> output' (h' ! k) = PNone \<and>
                (parent (h' ! k) = None \<or> parent (h' ! k) = Some c)) \<and>
           heap_ok h'"
  using run
proof (cases rule: do_my_work_cases)
  case (worked r new_work out h1 g)
  have rc: "resolver_contract r" using rk worked(1) by (auto simp: registry_ok_def)
  from resolver_contractD(1) [OF rc worked(3)] obtain new where
    h1: "h1 = h @ new" and new: "list_all fresh_node new" by blast
  have nw: "\<forall>v\<in>set new_work. \<exists>k. v = PNode k \<and> length h \<le> k \<and> k < length (h @ new)"
    using resolver_contractD(2) [OF rc worked(3) refl] h1 by blast
  from adopt_after_resolver [OF ok c new nw, of out] obtain g' ks where
    a: "adopt ((h @ new)[c := ((h @ new) ! c)\<lparr>output' := out\<rparr>]) new_work c = (Inr (), g')"
    and lg': "length g' = length (h @ new)"
    and gc': "g' ! c = (h ! c)\<lparr>output' := out, children := children (h ! c) @ ks\<rparr>"
    and d: "distinct ks" and s: "set ks \<subseteq> {length h..<length (h @ new)}"
    and o': "\<forall>i<length h. i \<noteq> c \<longrightarrow> g' ! i = h ! i"
    and f': "\<forall>k. length h \<le> k \<and> k < length (h @ new) \<longrightarrow>
                 fresh_node (g' ! k) \<or> (\<exists>n. fresh_node n \<and> g' ! k = n\<lparr>parent := Some c\<rparr>)"
    by blast
  have gg: "g' = g" using a worked(4) unfolding h1 by simp
  note lg = lg' [unfolded gg] and gc = gc' [unfolded gg] and o = o' [unfolded gg]
    and f = f' [unfolded gg]
  have lh': "length h' = length (h @ new)" using worked(6) lg by simp
  have r1: "length h \<le> length h'" using lh' by simp
  have cg: "c < length g" using c lg by simp
  have r2: "h' ! c = (h ! c)\<lparr>output' := out, children := children (h ! c) @ ks, finished := True\<rparr>"
    using worked(6) cg gc by simp
  have oth: "\<And>i. i \<noteq> c \<Longrightarrow> h' ! i = g ! i" using worked(6) by simp
  have r4: "set ks \<subseteq> {length h..<length h'}" using s lh' by simp
  have r5: "\<forall>i<length h. i \<noteq> c \<longrightarrow> h' ! i = h ! i" using o oth by simp
  have r6: "\<forall>k. length h \<le> k \<and> k < length h' \<longrightarrow>
                children (h' ! k) = [] \<and> \<not> finished (h' ! k) \<and> output' (h' ! k) = PNone \<and>
                (parent (h' ! k) = None \<or> parent (h' ! k) = Some c)"
  proof (intro allI impI)
    fix k assume k: "length h \<le> k \<and> k < length h'"
    then have "k \<noteq> c" using c by simp
    then have e: "h' ! k = g ! k" by (rule oth)
    from f k lh' have "fresh_node (g ! k) \<or> (\<exists>n. fresh_node n \<and> g ! k = n\<lparr>parent := Some c\<rparr>)"
      by simp
    then show "children (h' ! k) = [] \<and> \<not> finished (h' ! k) \<and> output' (h' ! k) = PNone \<and>
                (parent (h' ! k) = None \<or> parent (h' ! k) = Some c)"
      unfolding e by (auto simp: fresh_node_def)
  qed
  have r7: "heap_ok h'"
  proof (rule heap_okI)
    fix i p assume i: "i < length h'" and p: "parent (h' ! i) = Some p"
    show "p < length h'"
    proof (cases "i < length h")
      case True
      have "parent (h' ! i) = parent (h ! i)"
        using r2 r5 True by (cases "i = c") simp_all
      then have "p < length h" using heap_okD(1) [OF ok True] p by simp
      then show ?thesis using r1 by simp
    next
      case False
      then have "parent (h' ! i) = None \<or> parent (h' ! i) = Some c" using r6 i by simp
      then show ?thesis using p c r1 by auto
    qed
  next
    fix i k assume i: "i < length h'" and k: "k \<in> set (children (h' ! i))"
    show "k < length h'"
    proof (cases "i < length h")
      case True
      show ?thesis
      proof (cases "i = c")
        case True
        then have "k \<in> set (children (h ! c)) \<or> k \<in> set ks" using k r2 by auto
        then show ?thesis
        proof
          assume "k \<in> set (children (h ! c))"
          then have "k < length h" by (rule heap_okD(2) [OF ok c])
          then show ?thesis using r1 by simp
        next
          assume "k \<in> set ks"
          then show ?thesis using r4 by auto
        qed
      next
        case False
        then have "k \<in> set (children (h ! i))" using k r5 True by simp
        then have "k < length h" by (rule heap_okD(2) [OF ok True])
        then show ?thesis using r1 by simp
      qed
    next
      case False
      then have "children (h' ! i) = []" using r6 i by simp
      then show ?thesis using k by simp
    qed
  qed
  show ?thesis
    by (intro exI [of _ out] exI [of _ ks] conjI) (fact r1 r2 d r4 r5 r6 r7)+
qed simp_all

lemma do_my_work_failure:
  assumes rk: "registry_ok wr" and ok: "heap_ok h" and c: "c < length h"
    and run: "do_my_work wr h c = (Inl e, h')"
  shows "\<exists>new. h' = h @ new \<and> list_all fresh_node new"
  using run
proof (cases rule: do_my_work_cases)
  case unregistered
  then show ?thesis by simp
next
  case (bad_args r)
  then show ?thesis by simp
next
  case (raised r e')
  have rc: "resolver_contract r" using rk raised(1) by (auto simp: registry_ok_def)
  from resolver_contractD(1) [OF rc raised(3)] show ?thesis .
next
  case (adopt_failed r new_work out h1 e')
  have rc: "resolver_contract r" using rk adopt_failed(1) by (auto simp: registry_ok_def)
  from resolver_contractD(1) [OF rc adopt_failed(3)] obtain new where
    h1: "h1 = h @ new" and new: "list_all fresh_node new" by blast
  have nw: "\<forall>v\<in>set new_work. \<exists>k. v = PNode k \<and> length h \<le> k \<and> k < length (h @ new)"
    using resolver_contractD(2) [OF rc adopt_failed(3) refl] h1 by blast
  from adopt_after_resolver [OF ok c new nw, of out] obtain g' where
    "adopt ((h @ new)[c := ((h @ new) ! c)\<lparr>output' := out\<rparr>]) new_work c = (Inr (), g')"
    by blast
  with adopt_failed(4) show ?thesis unfolding h1 by simp
next
  case (worked r new_work out h1 g)
  then show ?thesis by simp
qed

inductive_cases preorder_NilE: "preorder h [] l"
inductive_cases preorder_ConsE: "preorder h (c # cs) l"

lemma preorder_cong:
  "preorder h cs l \<Longrightarrow> (\<And>n. n \<in> set l \<Longrightarrow> children (h' ! n) = children (h ! n)) \<Longrightarrow> preorder h' cs l"
proof (induction rule: preorder.induct)
  case (preorder_Nil h)
  show ?case by (rule preorder.preorder_Nil)
next
  case (preorder_Cons h c l1 cs l2)
  have c: "children (h' ! c) = children (h ! c)" using preorder_Cons.prems by simp
  have 1: "preorder h' (children (h ! c)) l1" using preorder_Cons.IH(1) preorder_Cons.prems by simp
  have 2: "preorder h' cs l2" using preorder_Cons.IH(2) preorder_Cons.prems by simp
  show ?case using preorder.preorder_Cons [of h' c l1 cs l2] 1 2 by (simp add: c)
qed

lemma preorder_append:
  "preorder h xs l1 \<Longrightarrow> preorder h ys l2 \<Longrightarrow> preorder h (xs @ ys) (l1 @ l2)"
proof (induction rule: preorder.induct)
  case (preorder_Nil h)
  then show ?case by simp
next
  case (preorder_Cons h c la cs lb)
  have "preorder h (c # (cs @ ys)) (c # la @ (lb @ l2))"
    using preorder_Cons.hyps(1) preorder_Cons.IH(2) [OF preorder_Cons.prems]
    by (rule preorder.preorder_Cons)
  then show ?case by simp
qed

lemma preorder_leaves: "(\<And>k. k \<in> set ks \<Longrightarrow> children (h ! k) = []) \<Longrightarrow> preorder h ks ks"
proof (induction ks)
  case Nil
  show ?case by (rule preorder.preorder_Nil)
next
  case (Cons k ks)
  have "preorder h (children (h ! k)) []" using Cons.prems by (simp add: preorder.preorder_Nil)
  moreover have "preorder h ks ks" using Cons by simp
  ultimately have "preorder h (k # ks) (k # [] @ ks)" by (rule preorder.preorder_Cons)
  then show ?case by simp
qed


lemma preorder_functional: "preorder h cs l \<Longrightarrow> preorder h cs l' \<Longrightarrow> l = l'"
proof (induction arbitrary: l' rule: preorder.induct)
  case (preorder_Nil h)
  then show ?case by (auto elim: preorder_NilE)
next
  case (preorder_Cons h c l1 cs l2)
  from preorder_Cons.prems obtain m1 m2 where "l' = c # m1 @ m2"
    "preorder h (children (h ! c)) m1" "preorder h cs m2"
    by (auto elim: preorder_ConsE)
  then show ?case using preorder_Cons.IH by simp
qed

lemma iter_postI:
  assumes "heap_ok h'" and "length h \<le> length h'"
    and "\<And>i. i < length h \<Longrightarrow> i \<notin> set log \<Longrightarrow> h' ! i = h ! i"
    and "set log \<subseteq> set l \<union> {length h..<length h'}"
    and "preorder h' cs l'" and "distinct l'" and "set l \<subseteq> set l'"
    and "set l' \<subseteq> set l \<union> {length h..<length h'}"
    and "\<exists>rest. l' = log @ rest" and "r = Inr () \<Longrightarrow> log = l'"
    and "\<And>n. n \<in> set (if r = Inr () then log else butlast log) \<Longrightarrow> finished (h' ! n)"
    and "r \<noteq> Inr () \<Longrightarrow> log \<noteq> []"
    and "r \<noteq> Inr () \<Longrightarrow> last log < length h \<Longrightarrow> h' ! last log = h ! last log"
    and "r \<noteq> Inr () \<Longrightarrow> length h \<le> last log \<Longrightarrow>
           children (h' ! last log) = [] \<and> \<not> finished (h' ! last log) \<and> output' (h' ! last log) = PNone"
  shows "iter_post h cs l r h' log"
  unfolding iter_post_def
proof (intro conjI)
  show "\<exists>l'. preorder h' cs l' \<and> distinct l' \<and> set l \<subseteq> set l' \<and>
           set l' \<subseteq> set l \<union> {length h..<length h'} \<and>
           (\<exists>rest. l' = log @ rest) \<and> (r = Inr () \<longrightarrow> log = l')"
    using assms(5-10) by (intro exI [of _ l']) simp
qed (use assms in simp_all)

lemma iter_postE:
  assumes "iter_post h cs l r h' log"
  obtains l' where "heap_ok h'" and "length h \<le> length h'"
    and "\<And>i. i < length h \<Longrightarrow> i \<notin> set log \<Longrightarrow> h' ! i = h ! i"
    and "set log \<subseteq> set l \<union> {length h..<length h'}"
    and "preorder h' cs l'" and "distinct l'" and "set l \<subseteq> set l'"
    and "set l' \<subseteq> set l \<union> {length h..<length h'}"
    and "\<exists>rest. l' = log @ rest" and "r = Inr () \<Longrightarrow> log = l'"
    and "\<And>n. n \<in> set (if r = Inr () then log else butlast log) \<Longrightarrow> finished (h' ! n)"
    and "r \<noteq> Inr () \<Longrightarrow> log \<noteq> []"
    and "r \<noteq> Inr () \<Longrightarrow> last log < length h \<Longrightarrow> h' ! last log = h ! last log"
    and "r \<noteq> Inr () \<Longrightarrow> length h \<le> last log \<Longrightarrow>
           children (h' ! last log) = [] \<and> \<not> finished (h' ! last log) \<and> output' (h' ! last log) = PNone"
proof -
  from assms obtain l' where
    "heap_ok h'" "length h \<le> length h'"
    "\<forall>i<length h. i \<notin> set log \<longrightarrow> h' ! i = h ! i"
    "set log \<subseteq> set l \<union> {length h..<length h'}"
    "preorder h' cs l'" "distinct l'" "set l \<subseteq> set l'"
    "set l' \<subseteq> set l \<union> {length h..<length h'}"
    "\<exists>rest. l' = log @ rest" "r = Inr () \<longrightarrow> log = l'"
    "\<forall>n \<in> set (if r = Inr () then log else butlast log). finished (h' ! n)"
    "r \<noteq> Inr () \<longrightarrow> log \<noteq> [] \<and>
        (last log < length h \<longrightarrow> h' ! last log = h ! last log) \<and>
        (length h \<le> last log \<longrightarrow> children (h' ! last log) = [] \<and> \<not> finished (h' ! last log) \<and>
            output' (h' ! last log) = PNone)"
    unfolding iter_post_def by blast
  then show thesis by (intro that [of l']) simp_all
qed

lemma iter_post_Nil: "heap_ok h \<Longrightarrow> iter_post h [] [] (Inr ()) h []"
  by (rule iter_postI [where l' = "[]"]) (simp_all add: preorder.preorder_Nil)

lemma iter_work_Cons_cases:
  assumes "iter_work (Suc f) wr h (c # rest) = Some (r, h', log)"
  obtains (failed) e where "do_my_work wr h c = (Inl e, h')" "r = Inl e" "log = [c]"
  | (below) h1 e log1 where "do_my_work wr h c = (Inr (), h1)"
      "iter_work f wr h1 (children (h1 ! c)) = Some (Inl e, h', log1)" "r = Inl e" "log = c # log1"
  | (beside) h1 h2 log1 log2 where "do_my_work wr h c = (Inr (), h1)"
      "iter_work f wr h1 (children (h1 ! c)) = Some (Inr (), h2, log1)"
      "iter_work f wr h2 rest = Some (r, h', log2)" "log = c # log1 @ log2"
proof -
  obtain res h1 where dm: "do_my_work wr h c = (res, h1)" by (cases "do_my_work wr h c")
  show thesis
  proof (cases res)
    case (Inl e)
    with assms dm have "h' = h1" "r = Inl e" "log = [c]" by simp_all
    with dm Inl show thesis by (intro failed [of e]) simp_all
  next
    case (Inr u)
    with dm have dm': "do_my_work wr h c = (Inr (), h1)" by simp
    show thesis
    proof (cases "iter_work f wr h1 (children (h1 ! c))")
      case None
      with assms dm' show thesis by simp
    next
      case (Some t)
      obtain r1 h2 log1 where t: "t = (r1, h2, log1)" by (cases t)
      show thesis
      proof (cases r1)
        case (Inl e)
        with assms dm' Some t have "h' = h2" "r = Inl e" "log = c # log1" by simp_all
        with dm' Some t Inl show thesis by (intro below [of h1 e log1]) simp_all
      next
        case (Inr u')
        show thesis
        proof (cases "iter_work f wr h2 rest")
          case None
          with assms dm' Some t Inr show thesis by simp
        next
          case (Some t2)
          obtain r2 h3 log2 where t2: "t2 = (r2, h3, log2)" by (cases t2)
          with assms dm' \<open>iter_work f wr h1 (children (h1 ! c)) = Some t\<close> t Inr Some
          have "h' = h3" "r = r2" "log = c # log1 @ log2" by simp_all
          with dm' \<open>iter_work f wr h1 (children (h1 ! c)) = Some t\<close> t Inr Some t2
          show thesis by (intro beside [of h1 h2 log1 log2]) simp_all
        qed
      qed
    qed
  qed
qed

text \<open>More fuel does not change a result: \<open>None\<close> only ever means that the fuel ran out.\<close>

lemma iter_work_more_fuel:
  "iter_work fuel wr h cs = Some x \<Longrightarrow> iter_work (Suc fuel) wr h cs = Some x"
proof (induction fuel arbitrary: h cs x)
  case 0
  then show ?case by (cases cs) simp_all
next
  case (Suc f)
  show ?case
  proof (cases cs)
    case Nil
    with Suc.prems show ?thesis by simp
  next
    case (Cons c rest)
    obtain r h' log where x: "x = (r, h', log)" by (cases x)
    from Suc.prems [unfolded Cons x] show ?thesis
    proof (cases rule: iter_work_Cons_cases)
      case (failed e)
      then show ?thesis by (simp add: Cons x)
    next
      case (below h1 e log1)
      from Suc.IH [OF below(2)] below(1,3,4) show ?thesis by (simp add: Cons x)
    next
      case (beside h1 h2 log1 log2)
      from Suc.IH [OF beside(2)] Suc.IH [OF beside(3)] beside(1,4) show ?thesis
        by (simp add: Cons x)
    qed
  qed
qed

lemma after_work:
  assumes rk: "registry_ok wr" and ok: "heap_ok h" and c: "c < length h"
    and dm: "do_my_work wr h c = (Inr (), h1)"
    and pc: "preorder h (children (h ! c)) lc" and dlc: "distinct lc"
    and lcb: "set lc \<subseteq> {..<length h}" and cl: "c \<notin> set lc"
  obtains ks where "heap_ok h1" and "length h \<le> length h1" and "finished (h1 ! c)"
    and "\<And>i. i < length h \<Longrightarrow> i \<noteq> c \<Longrightarrow> h1 ! i = h ! i"
    and "\<And>k. length h \<le> k \<Longrightarrow> k < length h1 \<Longrightarrow>
           children (h1 ! k) = [] \<and> \<not> finished (h1 ! k) \<and> output' (h1 ! k) = PNone"
    and "preorder h1 (children (h1 ! c)) (lc @ ks)" and "distinct (lc @ ks)"
    and "set ks \<subseteq> {length h..<length h1}"
proof -
  from do_my_work_success [OF rk ok c dm] obtain out ks where
    s1: "length h \<le> length h1"
    and s2: "h1 ! c = (h ! c)\<lparr>output' := out, children := children (h ! c) @ ks, finished := True\<rparr>"
    and s3: "distinct ks" and s4: "set ks \<subseteq> {length h..<length h1}"
    and s5: "\<forall>i<length h. i \<noteq> c \<longrightarrow> h1 ! i = h ! i"
    and s6: "\<forall>k. length h \<le> k \<and> k < length h1 \<longrightarrow>
                children (h1 ! k) = [] \<and> \<not> finished (h1 ! k) \<and> output' (h1 ! k) = PNone \<and>
                (parent (h1 ! k) = None \<or> parent (h1 ! k) = Some c)"
    and s7: "heap_ok h1"
    by blast
  have p1: "preorder h1 (children (h ! c)) lc"
  proof (rule preorder_cong [OF pc])
    fix n assume n: "n \<in> set lc"
    then have "n < length h" "n \<noteq> c" using lcb cl by (fastforce simp: subset_iff)+
    then show "children (h1 ! n) = children (h ! n)" using s5 by simp
  qed
  have p2: "preorder h1 ks ks"
  proof (rule preorder_leaves)
    fix k assume "k \<in> set ks"
    then have "length h \<le> k \<and> k < length h1" using s4 by (fastforce simp: subset_iff)
    then show "children (h1 ! k) = []" using s6 by simp
  qed
  have kids: "children (h1 ! c) = children (h ! c) @ ks" by (simp add: s2)
  have p: "preorder h1 (children (h1 ! c)) (lc @ ks)"
    unfolding kids by (rule preorder_append [OF p1 p2])
  have d: "distinct (lc @ ks)" using dlc s3 lcb s4 by (fastforce simp: subset_iff)
  have fin: "finished (h1 ! c)" by (simp add: s2)
  show thesis
    by (rule that [of ks]) (use s7 s1 fin s5 s6 p d s4 in simp_all)
qed

lemma iter_work_post:
  assumes rk: "registry_ok wr"
  shows "iter_work fuel wr h cs = Some (r, h', log) \<Longrightarrow> heap_ok h \<Longrightarrow> preorder h cs l \<Longrightarrow>
         distinct l \<Longrightarrow> set l \<subseteq> {..<length h} \<Longrightarrow> iter_post h cs l r h' log"
proof (induction fuel arbitrary: h cs l r h' log)
  case 0
  show ?case
  proof (cases cs)
    case Nil
    with 0 show ?thesis by (auto elim: preorder_NilE intro: iter_post_Nil)
  next
    case (Cons c rest)
    with 0 show ?thesis by simp
  qed
next
  case (Suc f)
  show ?case
  proof (cases cs)
    case Nil
    with Suc.prems show ?thesis by (auto elim: preorder_NilE intro: iter_post_Nil)
  next
    case (Cons c rest)
    note ok = \<open>heap_ok h\<close>
    from Suc.prems(3) Cons obtain lc ls where l: "l = c # lc @ ls"
      and pc: "preorder h (children (h ! c)) lc" and ps: "preorder h rest ls"
      by (auto elim: preorder_ConsE)
    have c: "c < length h" and lcb: "set lc \<subseteq> {..<length h}" and lsb: "set ls \<subseteq> {..<length h}"
      using Suc.prems(5) l by auto
    have cl: "c \<notin> set lc" "c \<notin> set ls" and dlc: "distinct lc" and dls: "distinct ls"
      and dj: "set lc \<inter> set ls = {}"
      using Suc.prems(4) l by auto
    from Suc.prems(1) [unfolded Cons] show ?thesis
    proof (cases rule: iter_work_Cons_cases)
      case (failed e)
      from do_my_work_failure [OF rk ok c failed(1)] obtain new where
        h': "h' = h @ new" and new: "list_all fresh_node new" by blast
      have ok': "heap_ok h'" unfolding h' by (rule heap_ok_append_fresh [OF ok new])
      have same: "\<And>i. i < length h \<Longrightarrow> h' ! i = h ! i" by (simp add: h' nth_append)
      have pre: "preorder h' cs l"
      proof (rule preorder_cong [OF Suc.prems(3)])
        fix n assume "n \<in> set l"
        then have "n < length h" using Suc.prems(5) by auto
        then show "children (h' ! n) = children (h ! n)" by (simp add: same)
      qed
      show ?thesis
      proof (rule iter_postI [where l' = l])
        show "heap_ok h'" by (rule ok')
        show "length h \<le> length h'" by (simp add: h')
        show "\<And>i. i < length h \<Longrightarrow> i \<notin> set log \<Longrightarrow> h' ! i = h ! i" by (simp add: same)
        show "set log \<subseteq> set l \<union> {length h..<length h'}" by (simp add: failed(3) l)
        show "preorder h' cs l" by (rule pre)
        show "distinct l" by (rule Suc.prems(4))
        show "set l \<subseteq> set l" by simp
        show "set l \<subseteq> set l \<union> {length h..<length h'}" by simp
        show "\<exists>rest. l = log @ rest" by (simp add: failed(3) l)
        show "r = Inr () \<Longrightarrow> log = l" by (simp add: failed(2))
        show "\<And>n. n \<in> set (if r = Inr () then log else butlast log) \<Longrightarrow> finished (h' ! n)"
          by (simp add: failed(2,3))
        show "r \<noteq> Inr () \<Longrightarrow> log \<noteq> []" by (simp add: failed(3))
        show "r \<noteq> Inr () \<Longrightarrow> last log < length h \<Longrightarrow> h' ! last log = h ! last log"
          by (simp add: failed(3) same c)
        show "r \<noteq> Inr () \<Longrightarrow> length h \<le> last log \<Longrightarrow>
           children (h' ! last log) = [] \<and> \<not> finished (h' ! last log) \<and> output' (h' ! last log) = PNone"
          using c by (simp add: failed(3))
      qed
    next
      case (below h1 e log1)
      from after_work [OF rk ok c below(1) pc dlc lcb cl(1)] obtain ks where
        ok1: "heap_ok h1" and len1: "length h \<le> length h1" and fin: "finished (h1 ! c)"
        and s5: "\<And>i. i < length h \<Longrightarrow> i \<noteq> c \<Longrightarrow> h1 ! i = h ! i"
        and s6: "\<And>k. length h \<le> k \<Longrightarrow> k < length h1 \<Longrightarrow>
           children (h1 ! k) = [] \<and> \<not> finished (h1 ! k) \<and> output' (h1 ! k) = PNone"
        and pk: "preorder h1 (children (h1 ! c)) (lc @ ks)" and dk: "distinct (lc @ ks)"
        and ksb: "set ks \<subseteq> {length h..<length h1}"
        by blast
      have bk: "set (lc @ ks) \<subseteq> {..<length h1}" using lcb ksb len1 by (fastforce simp: subset_iff)
      from Suc.IH [OF below(2) ok1 pk dk bk] have
        post1: "iter_post h1 (children (h1 ! c)) (lc @ ks) (Inl e) h' log1" .
      from post1 obtain l1 where
        q1: "heap_ok h'" and q2: "length h1 \<le> length h'"
        and q3: "\<And>i. i < length h1 \<Longrightarrow> i \<notin> set log1 \<Longrightarrow> h' ! i = h1 ! i"
        and q4: "set log1 \<subseteq> set (lc @ ks) \<union> {length h1..<length h'}"
        and q5: "preorder h' (children (h1 ! c)) l1" and q6: "distinct l1"
        and q7: "set (lc @ ks) \<subseteq> set l1"
        and q8: "set l1 \<subseteq> set (lc @ ks) \<union> {length h1..<length h'}"
        and q9: "\<exists>rest. l1 = log1 @ rest"
        and q11: "\<And>n. n \<in> set (butlast log1) \<Longrightarrow> finished (h' ! n)"
        and q12: "log1 \<noteq> []"
        and q13: "last log1 < length h1 \<Longrightarrow> h' ! last log1 = h1 ! last log1"
        and q14: "length h1 \<le> last log1 \<Longrightarrow>
           children (h' ! last log1) = [] \<and> \<not> finished (h' ! last log1) \<and> output' (h' ! last log1) = PNone"
        by (rule iter_postE) simp_all
      have c1: "c < length h1" using c len1 by simp
      have d1: "c \<notin> set log1" using q4 cl(1) ksb c c1 by (fastforce simp: subset_iff)
      have d4: "c \<notin> set l1" using q8 cl(1) ksb c c1 by (fastforce simp: subset_iff)
      have d2: "h' ! c = h1 ! c" by (rule q3 [OF c1 d1])
      have d3: "\<And>n. n \<in> set ls \<Longrightarrow> h' ! n = h ! n"
      proof -
        fix n assume n: "n \<in> set ls"
        then have nh: "n < length h" "n \<noteq> c" "n \<notin> set lc" using lsb cl(2) dj by (fastforce simp: subset_iff)+
        then have "n \<notin> set log1" using q4 ksb len1 by (fastforce simp: subset_iff)
        then have "h' ! n = h1 ! n" using q3 nh(1) len1 by simp
        then show "h' ! n = h ! n" using s5 nh by simp
      qed
      have d5: "set l1 \<inter> set ls = {}" using q8 dj ksb lsb len1 by (fastforce simp: subset_iff)
      have d6: "preorder h' rest ls"
        by (rule preorder_cong [OF ps]) (simp add: d3)
      have pre: "preorder h' (c # rest) (c # l1 @ ls)"
        using preorder.preorder_Cons [of h' c l1 rest ls] q5 d6 by (simp add: d2)
      have last1: "last log = last log1" using q12 by (simp add: below(4))
      have lastin: "last log1 \<in> set log1" using q12 by simp
      show ?thesis
      proof (rule iter_postI [where l' = "c # l1 @ ls"])
        show "heap_ok h'" by (rule q1)
        show "length h \<le> length h'" using len1 q2 by simp
        show "\<And>i. i < length h \<Longrightarrow> i \<notin> set log \<Longrightarrow> h' ! i = h ! i"
        proof -
          fix i assume i: "i < length h" "i \<notin> set log"
          then have "i \<noteq> c" "i \<notin> set log1" by (simp_all add: below(4))
          then have "h' ! i = h1 ! i" using q3 i(1) len1 by simp
          then show "h' ! i = h ! i" using s5 i(1) \<open>i \<noteq> c\<close> by simp
        qed
        show "set log \<subseteq> set l \<union> {length h..<length h'}"
          using q4 ksb q2 len1 by (fastforce simp: subset_iff below(4) l)
        show "preorder h' cs (c # l1 @ ls)" using pre by (simp add: Cons)
        show "distinct (c # l1 @ ls)" using d4 cl(2) q6 dls d5 by simp
        show "set l \<subseteq> set (c # l1 @ ls)" using q7 by (fastforce simp: subset_iff l)
        show "set (c # l1 @ ls) \<subseteq> set l \<union> {length h..<length h'}"
          using q8 ksb q2 len1 by (fastforce simp: subset_iff l)
        show "\<exists>rest. c # l1 @ ls = log @ rest" using q9 by (auto simp: below(4))
        show "r = Inr () \<Longrightarrow> log = c # l1 @ ls" by (simp add: below(3))
        show "\<And>n. n \<in> set (if r = Inr () then log else butlast log) \<Longrightarrow> finished (h' ! n)"
        proof -
          fix n assume "n \<in> set (if r = Inr () then log else butlast log)"
          then have "n = c \<or> n \<in> set (butlast log1)" using q12 by (simp add: below(3,4))
          then show "finished (h' ! n)" using q11 fin d2 by auto
        qed
        show "r \<noteq> Inr () \<Longrightarrow> log \<noteq> []" by (simp add: below(4))
        show "r \<noteq> Inr () \<Longrightarrow> last log < length h \<Longrightarrow> h' ! last log = h ! last log"
        proof -
          assume a: "last log < length h"
          then have "last log1 < length h1" using last1 len1 by simp
          then have "h' ! last log1 = h1 ! last log1" by (rule q13)
          moreover have "last log1 \<noteq> c" using lastin d1 by auto
          ultimately show "h' ! last log = h ! last log" using s5 a last1 by simp
        qed
        show "r \<noteq> Inr () \<Longrightarrow> length h \<le> last log \<Longrightarrow>
           children (h' ! last log) = [] \<and> \<not> finished (h' ! last log) \<and> output' (h' ! last log) = PNone"
        proof -
          assume a: "length h \<le> last log"
          show "children (h' ! last log) = [] \<and> \<not> finished (h' ! last log) \<and> output' (h' ! last log) = PNone"
          proof (cases "last log1 < length h1")
            case True
            then have "h' ! last log1 = h1 ! last log1" by (rule q13)
            then show ?thesis using s6 [of "last log1"] a True last1 by simp
          next
            case False
            then show ?thesis using q14 last1 by simp
          qed
        qed
      qed
    next
      case (beside h1 h2 log1 log2)
      from after_work [OF rk ok c beside(1) pc dlc lcb cl(1)] obtain ks where
        ok1: "heap_ok h1" and len1: "length h \<le> length h1" and fin: "finished (h1 ! c)"
        and s5: "\<And>i. i < length h \<Longrightarrow> i \<noteq> c \<Longrightarrow> h1 ! i = h ! i"
        and s6: "\<And>k. length h \<le> k \<Longrightarrow> k < length h1 \<Longrightarrow>
           children (h1 ! k) = [] \<and> \<not> finished (h1 ! k) \<and> output' (h1 ! k) = PNone"
        and pk: "preorder h1 (children (h1 ! c)) (lc @ ks)" and dk: "distinct (lc @ ks)"
        and ksb: "set ks \<subseteq> {length h..<length h1}"
        by blast
      have bk: "set (lc @ ks) \<subseteq> {..<length h1}" using lcb ksb len1 by (fastforce simp: subset_iff)
      from Suc.IH [OF beside(2) ok1 pk dk bk] have
        post1: "iter_post h1 (children (h1 ! c)) (lc @ ks) (Inr ()) h2 log1" .
      from post1 obtain l1 where
        q1: "heap_ok h2" and q2: "length h1 \<le> length h2"
        and q3: "\<And>i. i < length h1 \<Longrightarrow> i \<notin> set log1 \<Longrightarrow> h2 ! i = h1 ! i"
        and q5': "preorder h2 (children (h1 ! c)) l1" and q6': "distinct l1"
        and q7': "set (lc @ ks) \<subseteq> set l1"
        and q8': "set l1 \<subseteq> set (lc @ ks) \<union> {length h1..<length h2}"
        and q10: "log1 = l1"
        and q11: "\<And>n. n \<in> set log1 \<Longrightarrow> finished (h2 ! n)"
        by (rule iter_postE) simp_all
      note q5 = q5' [folded q10] and q6 = q6' [folded q10] and q7 = q7' [folded q10]
        and q8 = q8' [folded q10]
      have c1: "c < length h1" using c len1 by simp
      have c2: "c < length h2" using c1 q2 by simp
      have d1: "c \<notin> set log1" using q8 cl(1) ksb c c1 by (fastforce simp: subset_iff)
      have d2: "h2 ! c = h1 ! c" by (rule q3 [OF c1 d1])
      have d3: "\<And>n. n \<in> set ls \<Longrightarrow> h2 ! n = h ! n"
      proof -
        fix n assume n: "n \<in> set ls"
        then have nh: "n < length h" "n \<noteq> c" "n \<notin> set lc" using lsb cl(2) dj by (fastforce simp: subset_iff)+
        then have "n \<notin> set log1" using q8 ksb len1 by (fastforce simp: subset_iff)
        then have "h2 ! n = h1 ! n" using q3 nh(1) len1 by simp
        then show "h2 ! n = h ! n" using s5 nh by simp
      qed
      have d5: "set log1 \<inter> set ls = {}" using q8 dj ksb lsb len1 by (fastforce simp: subset_iff)
      have d6: "preorder h2 rest ls"
        by (rule preorder_cong [OF ps]) (simp add: d3)
      have lsb2: "set ls \<subseteq> {..<length h2}" using lsb len1 q2 by (fastforce simp: subset_iff)
      from Suc.IH [OF beside(3) q1 d6 dls lsb2] have
        post2: "iter_post h2 rest ls r h' log2" .
      from post2 obtain l2 where
        r1: "heap_ok h'" and r2: "length h2 \<le> length h'"
        and r3: "\<And>i. i < length h2 \<Longrightarrow> i \<notin> set log2 \<Longrightarrow> h' ! i = h2 ! i"
        and r4: "set log2 \<subseteq> set ls \<union> {length h2..<length h'}"
        and r5: "preorder h' rest l2" and r6: "distinct l2"
        and r7: "set ls \<subseteq> set l2"
        and r8: "set l2 \<subseteq> set ls \<union> {length h2..<length h'}"
        and r9: "\<exists>rest. l2 = log2 @ rest"
        and r10: "r = Inr () \<Longrightarrow> log2 = l2"
        and r11: "\<And>n. n \<in> set (if r = Inr () then log2 else butlast log2) \<Longrightarrow> finished (h' ! n)"
        and r12: "r \<noteq> Inr () \<Longrightarrow> log2 \<noteq> []"
        and r13: "r \<noteq> Inr () \<Longrightarrow> last log2 < length h2 \<Longrightarrow> h' ! last log2 = h2 ! last log2"
        and r14: "r \<noteq> Inr () \<Longrightarrow> length h2 \<le> last log2 \<Longrightarrow>
           children (h' ! last log2) = [] \<and> \<not> finished (h' ! last log2) \<and> output' (h' ! last log2) = PNone"
        by (rule iter_postE) blast
      have b1: "set log1 \<subseteq> {..<length h2}" using q8 bk q2 by (fastforce simp: subset_iff)
      have e0: "c \<notin> set log2" using r4 cl(2) c2 by (fastforce simp: subset_iff)
      have e0': "c \<notin> set l2" using r8 cl(2) c2 by (fastforce simp: subset_iff)
      have e1: "h' ! c = h1 ! c" using r3 [OF c2 e0] d2 by simp
      have e2: "\<And>n. n \<in> set log1 \<Longrightarrow> h' ! n = h2 ! n"
      proof -
        fix n assume n: "n \<in> set log1"
        then have "n < length h2" using b1 by (fastforce simp: subset_iff)
        moreover have "n \<notin> set log2" using n r4 d5 b1 by (fastforce simp: subset_iff)
        ultimately show "h' ! n = h2 ! n" by (rule r3)
      qed
      have e3: "preorder h' (children (h1 ! c)) log1"
        by (rule preorder_cong [OF q5]) (simp add: e2)
      have e4: "set log1 \<inter> set l2 = {}" using r8 d5 b1 by (fastforce simp: subset_iff)
      have pre: "preorder h' (c # rest) (c # log1 @ l2)"
        using preorder.preorder_Cons [of h' c log1 rest l2] e3 r5 by (simp add: e1)
      show ?thesis
      proof (rule iter_postI [where l' = "c # log1 @ l2"])
        show "heap_ok h'" by (rule r1)
        show "length h \<le> length h'" using len1 q2 r2 by simp
        show "\<And>i. i < length h \<Longrightarrow> i \<notin> set log \<Longrightarrow> h' ! i = h ! i"
        proof -
          fix i assume i: "i < length h" "i \<notin> set log"
          then have n: "i \<noteq> c" "i \<notin> set log1" "i \<notin> set log2" by (simp_all add: beside(4))
          have "h' ! i = h2 ! i" using r3 n(3) i(1) len1 q2 by simp
          also have "h2 ! i = h1 ! i" using q3 n(2) i(1) len1 by simp
          also have "h1 ! i = h ! i" using s5 i(1) n(1) by simp
          finally show "h' ! i = h ! i" .
        qed
        show "set log \<subseteq> set l \<union> {length h..<length h'}"
          using q8 r4 ksb q2 r2 len1 by (fastforce simp: subset_iff beside(4) l)
        show "preorder h' cs (c # log1 @ l2)" using pre by (simp add: Cons)
        show "distinct (c # log1 @ l2)" using d1 e0' q6 r6 e4 by simp
        show "set l \<subseteq> set (c # log1 @ l2)" using q7 r7 by (fastforce simp: subset_iff l)
        show "set (c # log1 @ l2) \<subseteq> set l \<union> {length h..<length h'}"
          using q8 r8 ksb q2 r2 len1 by (fastforce simp: subset_iff l)
        show "\<exists>rest. c # log1 @ l2 = log @ rest" using r9 by (auto simp: beside(4))
        show "r = Inr () \<Longrightarrow> log = c # log1 @ l2" using r10 by (simp add: beside(4))
        show "\<And>n. n \<in> set (if r = Inr () then log else butlast log) \<Longrightarrow> finished (h' ! n)"
        proof -
          fix n assume n: "n \<in> set (if r = Inr () then log else butlast log)"
          have "n = c \<or> n \<in> set log1 \<or> n \<in> set (if r = Inr () then log2 else butlast log2)"
          proof (cases "r = Inr ()")
            case True
            with n show ?thesis by (simp add: beside(4))
          next
            case False
            then have "log2 \<noteq> []" by (rule r12)
            then have "butlast log = c # log1 @ butlast log2"
              by (simp add: beside(4) butlast_append)
            with n False show ?thesis by auto
          qed
          then show "finished (h' ! n)"
          proof (elim disjE)
            assume "n = c"
            then show ?thesis using fin e1 by simp
          next
            assume "n \<in> set log1"
            then show ?thesis using q11 e2 by simp
          next
            assume "n \<in> set (if r = Inr () then log2 else butlast log2)"
            then show ?thesis by (rule r11)
          qed
        qed
        show "r \<noteq> Inr () \<Longrightarrow> log \<noteq> []" by (simp add: beside(4))
        show "r \<noteq> Inr () \<Longrightarrow> last log < length h \<Longrightarrow> h' ! last log = h ! last log"
        proof -
          assume f: "r \<noteq> Inr ()" and a: "last log < length h"
          have ne: "log2 \<noteq> []" by (rule r12 [OF f])
          then have last2: "last log = last log2" by (simp add: beside(4))
          have "last log2 \<in> set log2" using ne by simp
          then have "last log2 \<in> set ls" using r4 a last2 len1 q2 by (fastforce simp: subset_iff)
          then have "h2 ! last log2 = h ! last log2" by (rule d3)
          moreover have "h' ! last log2 = h2 ! last log2"
            using r13 [OF f] a last2 len1 q2 by simp
          ultimately show "h' ! last log = h ! last log" using last2 by simp
        qed
        show "r \<noteq> Inr () \<Longrightarrow> length h \<le> last log \<Longrightarrow>
           children (h' ! last log) = [] \<and> \<not> finished (h' ! last log) \<and> output' (h' ! last log) = PNone"
        proof -
          assume f: "r \<noteq> Inr ()" and a: "length h \<le> last log"
          have ne: "log2 \<noteq> []" by (rule r12 [OF f])
          then have last2: "last log = last log2" by (simp add: beside(4))
          have "last log2 \<in> set log2" using ne by simp
          then have "length h2 \<le> last log2" using r4 a last2 lsb by (fastforce simp: subset_iff)
          then show "children (h' ! last log) = [] \<and> \<not> finished (h' ! last log) \<and> output' (h' ! last log) = PNone"
            using r14 [OF f] last2 by simp
        qed
      qed
    qed
  qed
qed

lemma do_my_work_registered:
  assumes "do_my_work wr h c = (Inr u, h1)"
  shows "wr (work_type (h ! c)) \<noteq> None"
  using assms by (cases rule: do_my_work_cases) simp_all

lemma do_my_work_success_kind:
  assumes rk: "registry_ok wr" and ok: "heap_ok h" and c: "c < length h"
    and run: "do_my_work wr h c = (Inr u, h1)"
  shows "heap_ok h1" and "length h \<le> length h1"
    and "i < length h \<Longrightarrow> work_type (h1 ! i) = work_type (h ! i)"
    and "set (children (h1 ! c)) \<subseteq> {..<length h1}"
proof -
  from do_my_work_success [OF rk ok c run] obtain out ks where
    s1: "length h \<le> length h1"
    and s2: "h1 ! c = (h ! c)\<lparr>output' := out, children := children (h ! c) @ ks, finished := True\<rparr>"
    and s5: "\<forall>i<length h. i \<noteq> c \<longrightarrow> h1 ! i = h ! i"
    and s7: "heap_ok h1"
    by blast
  show "heap_ok h1" by (rule s7)
  show "length h \<le> length h1" by (rule s1)
  show "i < length h \<Longrightarrow> work_type (h1 ! i) = work_type (h ! i)"
    using s2 s5 by (cases "i = c") simp_all
  have "c < length h1" using c s1 by simp
  then show "set (children (h1 ! c)) \<subseteq> {..<length h1}"
    using heap_okD(2) [OF s7] by auto
qed

lemma iter_work_kinds:
  assumes rk: "registry_ok wr"
  shows "iter_work fuel wr h cs = Some (r, h', log) \<Longrightarrow> heap_ok h \<Longrightarrow> set cs \<subseteq> {..<length h} \<Longrightarrow>
     heap_ok h' \<and> length h \<le> length h' \<and>
     (\<forall>i<length h. work_type (h' ! i) = work_type (h ! i)) \<and>
     set log \<subseteq> {..<length h'} \<and>
     (\<forall>n \<in> set (if r = Inr () then log else butlast log). wr (work_type (h' ! n)) \<noteq> None) \<and>
     (\<forall>e. r = Inl e \<longrightarrow> log \<noteq> [] \<and>
         (\<exists>hb. do_my_work wr hb (last log) = (Inl e, h') \<and> last log < length hb \<and> heap_ok hb))"
proof (induction fuel arbitrary: h cs r h' log)
  case 0
  then show ?case by (cases cs) auto
next
  case (Suc f)
  show ?case
  proof (cases cs)
    case Nil
    with Suc.prems show ?thesis by auto
  next
    case (Cons c rest)
    note ok = \<open>heap_ok h\<close>
    have c: "c < length h" and rb: "set rest \<subseteq> {..<length h}" using Suc.prems(3) Cons by auto
    from Suc.prems(1) [unfolded Cons] show ?thesis
    proof (cases rule: iter_work_Cons_cases)
      case (failed e)
      from do_my_work_failure [OF rk ok c failed(1)] obtain new where
        h': "h' = h @ new" and new: "list_all fresh_node new" by blast
      have ok': "heap_ok h'" unfolding h' by (rule heap_ok_append_fresh [OF ok new])
      have "\<exists>hb. do_my_work wr hb (last log) = (Inl e, h') \<and> last log < length hb \<and> heap_ok hb"
        using failed(1) c ok by (intro exI [of _ h]) (simp add: failed(3))
      then show ?thesis using ok' c by (simp add: failed(2,3) h' nth_append)
    next
      case (below h1 e log1)
      note s = do_my_work_success_kind [OF rk ok c below(1)]
      from Suc.IH [OF below(2) s(1) s(4)] have
        q1: "heap_ok h'" and q2: "length h1 \<le> length h'"
        and q3: "\<forall>i<length h1. work_type (h' ! i) = work_type (h1 ! i)"
        and q4: "set log1 \<subseteq> {..<length h'}"
        and q5: "\<forall>n \<in> set (butlast log1). wr (work_type (h' ! n)) \<noteq> None"
        and q6: "log1 \<noteq> []"
        and q7: "\<exists>hb. do_my_work wr hb (last log1) = (Inl e, h') \<and> last log1 < length hb \<and> heap_ok hb"
        by simp_all
      have k: "\<forall>i<length h. work_type (h' ! i) = work_type (h ! i)"
        using q3 s(2,3) by simp
      have reg: "wr (work_type (h' ! c)) \<noteq> None"
        using do_my_work_registered [OF below(1)] k c by simp
      have "length h \<le> length h'" using s(2) q2 by simp
      moreover have "set log \<subseteq> {..<length h'}" using q4 c s(2) q2 by (auto simp: below(4))
      moreover have "\<forall>n \<in> set (butlast log). wr (work_type (h' ! n)) \<noteq> None"
        using q5 q6 reg by (simp add: below(4))
      moreover have "\<exists>hb. do_my_work wr hb (last log) = (Inl e, h') \<and> last log < length hb \<and> heap_ok hb"
        using q7 q6 by (simp add: below(4))
      ultimately show ?thesis using q1 k by (simp add: below(3,4))
    next
      case (beside h1 h2 log1 log2)
      note s = do_my_work_success_kind [OF rk ok c beside(1)]
      from Suc.IH [OF beside(2) s(1) s(4)] have
        q1: "heap_ok h2" and q2: "length h1 \<le> length h2"
        and q3: "\<forall>i<length h1. work_type (h2 ! i) = work_type (h1 ! i)"
        and q4: "set log1 \<subseteq> {..<length h2}"
        and q5: "\<forall>n \<in> set log1. wr (work_type (h2 ! n)) \<noteq> None"
        by simp_all
      have rb2: "set rest \<subseteq> {..<length h2}" using rb s(2) q2 by auto
      from Suc.IH [OF beside(3) q1 rb2] have
        r1: "heap_ok h'" and r2: "length h2 \<le> length h'"
        and r3: "\<forall>i<length h2. work_type (h' ! i) = work_type (h2 ! i)"
        and r4: "set log2 \<subseteq> {..<length h'}"
        and r5: "\<forall>n \<in> set (if r = Inr () then log2 else butlast log2). wr (work_type (h' ! n)) \<noteq> None"
        and r6: "\<forall>e. r = Inl e \<longrightarrow> log2 \<noteq> [] \<and>
         (\<exists>hb. do_my_work wr hb (last log2) = (Inl e, h') \<and> last log2 < length hb \<and> heap_ok hb)"
        by simp_all
      have k: "\<forall>i<length h. work_type (h' ! i) = work_type (h ! i)"
        using r3 q3 s(2,3) q2 by simp
      have reg: "wr (work_type (h' ! c)) \<noteq> None"
        using do_my_work_registered [OF beside(1)] k c by simp
      have reg1: "\<forall>n \<in> set log1. wr (work_type (h' ! n)) \<noteq> None"
      proof
        fix n assume n: "n \<in> set log1"
        then have "n < length h2" using q4 by auto
        then show "wr (work_type (h' ! n)) \<noteq> None" using r3 q5 n by simp
      qed
      have a: "length h \<le> length h'" using s(2) q2 r2 by simp
      have b: "set log \<subseteq> {..<length h'}" using q4 r4 c a r2 by (auto simp: beside(4))
      have d: "\<forall>n \<in> set (if r = Inr () then log else butlast log). wr (work_type (h' ! n)) \<noteq> None"
      proof (cases "r = Inr ()")
        case True
        then show ?thesis using reg reg1 r5 by (auto simp: beside(4))
      next
        case False
        then obtain e where "r = Inl e" by (cases r) auto
        then have "log2 \<noteq> []" using r6 by simp
        then have "butlast log = c # log1 @ butlast log2" by (simp add: beside(4) butlast_append)
        then show ?thesis using False reg reg1 r5 by auto
      qed
      have e: "\<forall>e. r = Inl e \<longrightarrow> log \<noteq> [] \<and>
         (\<exists>hb. do_my_work wr hb (last log) = (Inl e, h') \<and> last log < length hb \<and> heap_ok hb)"
      proof (intro allI impI)
        fix e assume "r = Inl e"
        then have "log2 \<noteq> [] \<and>
         (\<exists>hb. do_my_work wr hb (last log2) = (Inl e, h') \<and> last log2 < length hb \<and> heap_ok hb)"
          using r6 by simp
        then show "log \<noteq> [] \<and>
         (\<exists>hb. do_my_work wr hb (last log) = (Inl e, h') \<and> last log < length hb \<and> heap_ok hb)"
          by (simp add: beside(4))
      qed
      show ?thesis using r1 a k b d e by simp
    qed
  qed
qed

lemma preorder_bound:
  "preorder h cs l \<Longrightarrow> heap_ok h \<Longrightarrow> set cs \<subseteq> {..<length h} \<Longrightarrow> set l \<subseteq> {..<length h}"
proof (induction rule: preorder.induct)
  case (preorder_Nil h)
  show ?case by simp
next
  case (preorder_Cons h c l1 cs l2)
  have c: "c < length h" using preorder_Cons.prems(2) by simp
  have "set (children (h ! c)) \<subseteq> {..<length h}"
    using heap_okD(2) [OF preorder_Cons.prems(1) c] by auto
  then have "set l1 \<subseteq> {..<length h}" using preorder_Cons.IH(1) preorder_Cons.prems(1) by simp
  moreover have "set l2 \<subseteq> {..<length h}"
    using preorder_Cons.IH(2) preorder_Cons.prems by simp
  ultimately show ?case using c by simp
qed




lemma WorkNode_init_plain:
  "WorkNode_init wt [] [] h = (Inr (length h), h @ [plain_node wt False PNone None []])"
  by (simp add: WorkNode_init_def bind_arguments_def set_parent_def plain_node_def)

lemma fresh_plain_node: "fresh_node (plain_node wt False PNone None [])"
  by (simp add: fresh_node_def plain_node_def)

lemma construct_all_spec:
  "construct_all ks h = (vs, h') \<Longrightarrow>
     \<exists>new. h' = h @ new \<and> list_all fresh_node new \<and> vs = map PNode [length h..<length h']"
proof (induction ks arbitrary: h vs h')
  case Nil
  then show ?case by simp
next
  case (Cons k ks)
  obtain ws h2 where r: "construct_all ks (h @ [plain_node k False PNone None []]) = (ws, h2)"
    by (cases "construct_all ks (h @ [plain_node k False PNone None []])")
  from Cons.IH [OF r] obtain new where
    h2: "h2 = (h @ [plain_node k False PNone None []]) @ new" and fr: "list_all fresh_node new"
    and ws: "ws = map PNode [length (h @ [plain_node k False PNone None []])..<length h2]"
    by blast
  from Cons.prems r have vs: "vs = PNode (length h) # ws" and h': "h' = h2"
    by (simp_all add: WorkNode_init_plain)
  have "h' = h @ (plain_node k False PNone None [] # new)" using h2 h' by simp
  moreover have "list_all fresh_node (plain_node k False PNone None [] # new)"
    using fr fresh_plain_node by simp
  moreover have "vs = map PNode [length h..<length h']"
  proof -
    have lt: "length h < length h'" using h2 h' by simp
    have "[length h..<length h'] = length h # [Suc (length h)..<length h']"
      using lt by (rule upt_conv_Cons)
    moreover have "ws = map PNode [Suc (length h)..<length h']"
      using ws unfolding h' by (simp only: length_append_singleton)
    ultimately show ?thesis using vs by (simp only: list.map)
  qed
  ultimately show ?case by blast
qed

lemma contract_spawns:
  assumes "\<forall>x \<in> set extra. \<not> is_WorkNode x"
  shows "resolver_contract (decorated_function (spawns ks extra))"
  unfolding resolver_contract_def
proof (intro allI impI)
  fix as kw h res h'
  assume run: "decorated_function (spawns ks extra) as kw h = (res, h')"
  obtain vs h1 where c: "construct_all ks h = (vs, h1)" by (cases "construct_all ks h")
  from construct_all_spec [OF c] obtain new where h1: "h1 = h @ new"
    and fr: "list_all fresh_node new" and vs: "vs = map PNode [length h..<length h1]" by blast
  have f: "filter is_WorkNode (vs @ extra) = vs" using assms by (simp add: vs filter_empty_conv)
  from run c have res: "res = Inr (vs, PList (filter (\<lambda>x. \<not> is_WorkNode x) (vs @ extra)))"
    and h': "h' = h1"
    by (simp_all add: decorated_function_def spawns_def split_iterable_filter f del: filter_append)
  show "(\<exists>new. h' = h @ new \<and> list_all fresh_node new) \<and>
        (\<forall>new_work out. res = Inr (new_work, out) \<longrightarrow>
           (\<forall>v \<in> set new_work. \<exists>c. v = PNode c \<and> length h \<le> c \<and> c < length h'))"
    using h1 fr vs res h' by auto
qed

lemma contract_returns:
  assumes "\<not> is_WorkNode v" and "\<forall>x \<in> set (iterate v). \<not> is_WorkNode x"
  shows "resolver_contract (decorated_function (returns v))"
  unfolding resolver_contract_def
proof (intro allI impI)
  fix as kw h res h'
  assume run: "decorated_function (returns v) as kw h = (res, h')"
  have e: "filter is_WorkNode (iterate v) = []" using assms(2) by (simp add: filter_empty_conv)
  from run have h': "h' = h" and res: "\<exists>out. res = Inr ([], out)"
    using assms(1) by (auto simp: decorated_function_def returns_def split_iterable_filter e split: if_splits)
  show "(\<exists>new. h' = h @ new \<and> list_all fresh_node new) \<and>
        (\<forall>new_work out. res = Inr (new_work, out) \<longrightarrow>
           (\<forall>v \<in> set new_work. \<exists>c. v = PNode c \<and> length h \<le> c \<and> c < length h'))"
    using h' res by auto
qed

lemma contract_raises: "resolver_contract (decorated_function (raises e))"
  by (simp add: resolver_contract_def decorated_function_def raises_def)

lemma registry_ok_test_registry: "registry_ok test_registry"
  unfolding registry_ok_def test_registry_def
  by (auto simp: contract_spawns contract_returns contract_raises split: if_splits)

lemmas run_defs = do_all_work_def test_registry_def do_my_work_def decorated_function_def
  spawns_def returns_def raises_def split_iterable_def WorkNode_init_plain set_parent_def
  check_loop_def attach_def detach_def Let_def nth_update_if plain_node_def leaf_output_def



lemma run_failure:
  "do_all_work 4 test_registry [plain_node username_mention False PNone None []] 0 =
     Some (Inl (Raised ''link''),
           [plain_node username_mention True (PList []) None [1, 2, 3],
            plain_node parse_table True leaf_output (Some 0) [],
            plain_node follow_link False PNone (Some 0) [],
            plain_node parse_table False PNone (Some 0) []],
           [0, 1, 2])"
  by (simp add: run_defs eval_nat_numeral)

lemma run_unregistered:
  "do_all_work 2 test_registry [plain_node parse_comment_for_table False PNone None []] 0 =
     Some (Inl KeyError,
           [plain_node parse_comment_for_table True (PList []) None [1],
            plain_node parse_arbitrary_text_for_table False PNone (Some 0) []],
           [0, 1])"
  by (simp add: run_defs eval_nat_numeral)



section \<open>The claims\<close>

text \<open>
  Claim C4. The adapter turns the raw return value \<open>v\<close> of a resolver into a pair
  (new work, output): nothing returned gives \<open>([], None)\<close>; a single \<^verbatim>\<open>WorkNode\<close> gives
  that node alone and no output; a single value that is neither iterable nor a node
  gives no work and that value; an iterable is partitioned into its \<^verbatim>\<open>WorkNode\<close> items
  and, as output, the list of its other items, both in their original order.
\<close>

theorem decorated_function_normalizes:
  assumes "f as kw h = (Inr v, h1)"
  shows "(v = PNone \<longrightarrow> decorated_function f as kw h = (Inr ([], PNone), h1))
       \<and> (is_WorkNode v \<longrightarrow> decorated_function f as kw h = (Inr ([v], PNone), h1))
       \<and> (v \<noteq> PNone \<and> \<not> is_Iterable v \<and> \<not> is_WorkNode v \<longrightarrow>
            decorated_function f as kw h = (Inr ([], v), h1))
       \<and> (is_Iterable v \<longrightarrow>
            decorated_function f as kw h =
              (Inr (filter is_WorkNode (iterate v),
                    PList (filter (\<lambda>x. \<not> is_WorkNode x) (iterate v))), h1))"
  using assms by (cases v) (simp_all add: decorated_function_def split_iterable_filter)

theorem decorated_function_normalizes_witness:
  "decorated_function (\<lambda>as kw h. (Inr PNone, h)) [] [] [] = (Inr ([], PNone), [])
   \<and> decorated_function (\<lambda>as kw h. (Inr (PNode 0), h)) [] [] [] = (Inr ([PNode 0], PNone), [])
   \<and> decorated_function (\<lambda>as kw h. (Inr (PInt 7), h)) [] [] [] = (Inr ([], PInt 7), [])
   \<and> decorated_function (\<lambda>as kw h. (Inr (PList [PInt 1, PNode 0, PStr ''a'', PNode 1]), h)) [] [] []
       = (Inr ([PNode 0, PNode 1], PList [PInt 1, PStr ''a'']), [])"
  using decorated_function_normalizes [of "\<lambda>as kw h. (Inr PNone, h)" "[]" "[]" "[]" PNone "[]"]
    decorated_function_normalizes [of "\<lambda>as kw h. (Inr (PNode 0), h)" "[]" "[]" "[]" "PNode 0" "[]"]
    decorated_function_normalizes [of "\<lambda>as kw h. (Inr (PInt 7), h)" "[]" "[]" "[]" "PInt 7" "[]"]
    decorated_function_normalizes [of "\<lambda>as kw h. (Inr (PList [PInt 1, PNode 0, PStr ''a'', PNode 1]), h)"
       "[]" "[]" "[]" "PList [PInt 1, PNode 0, PStr ''a'', PNode 1]" "[]"]
  by simp

text \<open>
  Claim C9. When the raw return value of a resolver is a string, the adapter treats it
  as an iterable: the result is no new work and, as output, the list of the string's
  characters (one-character strings), not the string.
\<close>

theorem string_result_split_into_characters:
  assumes "f as kw h = (Inr (PStr s), h1)"
  shows "decorated_function f as kw h = (Inr ([], PList (map (\<lambda>c. PStr [c]) s)), h1)"
  using assms by (simp add: decorated_function_def split_iterable_filter filter_map comp_def)

theorem string_result_split_into_characters_witness:
  "decorated_function (\<lambda>as kw h. (Inr (PStr ''No tables''), h)) [] [] []
     = (Inr ([], PList [PStr ''N'', PStr ''o'', PStr '' '', PStr ''t'', PStr ''a'', PStr ''b'',
                        PStr ''l'', PStr ''e'', PStr ''s'']), [])
   \<and> PList [PStr ''N'', PStr ''o'', PStr '' '', PStr ''t'', PStr ''a'', PStr ''b'',
             PStr ''l'', PStr ''e'', PStr ''s''] \<noteq> PStr ''No tables''"
  using string_result_split_into_characters
     [of "\<lambda>as kw h. (Inr (PStr ''No tables''), h)" "[]" "[]" "[]" "''No tables''" "[]"]
  by simp

text \<open>
  Claim C6. Once a kind is registered, registering it again without override fails
  (the \<^verbatim>\<open>assert\<close> of \<^verbatim>\<open>_register_resolver\<close> raises \<^verbatim>\<open>AssertionError\<close>, which is what the
  specification calls DuplicateRegistrationError) and the registry still holds the
  first resolver; with override it succeeds and a lookup of the kind returns the new
  resolver.
\<close>

theorem register_twice:
  assumes "register_resolver wr0 wt r0 ov = (Inr (), wr1)"
  shows "register_resolver wr1 wt r1 False = (Inl AssertionError, wr1)
       \<and> lookup wr1 wt = Inr r0
       \<and> (\<exists>wr2. register_resolver wr1 wt r1 True = (Inr (), wr2) \<and> lookup wr2 wt = Inr r1)"
  using assms by (auto simp: register_resolver_def lookup_def split: if_splits)

theorem register_twice_witness:
  "register_resolver Map.empty parse_op (\<lambda>as kw h. (Inr ([], PInt 1), h)) False
     = (Inr (), [parse_op \<mapsto> (\<lambda>as kw h. (Inr ([], PInt 1), h))])
   \<and> register_resolver [parse_op \<mapsto> (\<lambda>as kw h. (Inr ([], PInt 1), h))] parse_op
        (\<lambda>as kw h. (Inr ([], PInt 2), h)) False
     = (Inl AssertionError, [parse_op \<mapsto> (\<lambda>as kw h. (Inr ([], PInt 1), h))])
   \<and> (\<exists>wr2. register_resolver [parse_op \<mapsto> (\<lambda>as kw h. (Inr ([], PInt 1), h))] parse_op
        (\<lambda>as kw h. (Inr ([], PInt 2), h)) True = (Inr (), wr2)
        \<and> lookup wr2 parse_op = Inr (\<lambda>as kw h. (Inr ([], PInt 2), h)))"
proof -
  have first: "register_resolver Map.empty parse_op (\<lambda>as kw h. (Inr ([], PInt 1), h)) False
     = (Inr (), [parse_op \<mapsto> (\<lambda>as kw h. (Inr ([], PInt 1), h))])"
    by (simp add: register_resolver_def)
  show ?thesis
    using first register_twice [OF first, of "\<lambda>as kw h. (Inr ([], PInt 2), h)"] by simp
qed

lemma PList_singleton_neq: "PList [x] \<noteq> x"
proof
  assume "PList [x] = x"
  then have "size (PList [x]) = size x" by simp
  then show False by simp
qed

text \<open>
  Claim C10. When the raw return value of a resolver is an iterable, the output
  component of the adapter's result is a list and never \<^verbatim>\<open>None\<close>: the list of the
  items that are no \<^verbatim>\<open>WorkNode\<close>, so the empty list when every item is a node and a
  one-element list, not the bare value, when exactly one item is not. \<^verbatim>\<open>do_my_work\<close>
  stores that list as the node's output; a node whose resolver returned only child
  nodes ends with the empty list as output.
\<close>

theorem iterable_result_output_is_list:
  assumes "f as kw h = (Inr v, h1)" and "is_Iterable v"
  shows "\<exists>outs. decorated_function f as kw h = (Inr (filter is_WorkNode (iterate v), PList outs), h1)
           \<and> outs = filter (\<lambda>x. \<not> is_WorkNode x) (iterate v)
           \<and> PList outs \<noteq> PNone
           \<and> ((\<forall>x \<in> set (iterate v). is_WorkNode x) \<longrightarrow> outs = [])
           \<and> (\<forall>x. filter (\<lambda>x. \<not> is_WorkNode x) (iterate v) = [x] \<longrightarrow> PList outs = PList [x] \<and> PList outs \<noteq> x)
           \<and> (\<forall>wr self h2.
                 wr (work_type (h ! self)) = Some (decorated_function f) \<and>
                 as = iterate (args (h ! self)) \<and> kw = kwargs (h ! self) \<and> self < length h1 \<and>
                 do_my_work wr h self = (Inr (), h2)
                 \<longrightarrow> output' (h2 ! self) = PList outs \<and> finished (h2 ! self))"
proof -
  let ?outs = "filter (\<lambda>x. \<not> is_WorkNode x) (iterate v)"
  have d: "decorated_function f as kw h = (Inr (filter is_WorkNode (iterate v), PList ?outs), h1)"
    using assms by (cases v) (simp_all add: decorated_function_def split_iterable_filter)
  have e: "(\<forall>x \<in> set (iterate v). is_WorkNode x) \<longrightarrow> ?outs = []"
    by (simp add: filter_empty_conv)
  have s: "\<forall>x. ?outs = [x] \<longrightarrow> PList ?outs = PList [x] \<and> PList ?outs \<noteq> x"
    by (simp add: PList_singleton_neq)
  have w: "\<forall>wr self h2.
                 wr (work_type (h ! self)) = Some (decorated_function f) \<and>
                 as = iterate (args (h ! self)) \<and> kw = kwargs (h ! self) \<and> self < length h1 \<and>
                 do_my_work wr h self = (Inr (), h2)
                 \<longrightarrow> output' (h2 ! self) = PList ?outs \<and> finished (h2 ! self)"
  proof (intro allI impI)
    fix wr self h2
    assume a: "wr (work_type (h ! self)) = Some (decorated_function f) \<and>
                 as = iterate (args (h ! self)) \<and> kw = kwargs (h ! self) \<and> self < length h1 \<and>
                 do_my_work wr h self = (Inr (), h2)"
    then have "decorated_function f (iterate (args (h ! self))) (kwargs (h ! self)) h
                 = (Inr (filter is_WorkNode (iterate v), PList ?outs), h1)"
      using d by simp
    with a show "output' (h2 ! self) = PList ?outs \<and> finished (h2 ! self)"
      by (intro do_my_work_output [of wr h self "decorated_function f" _ _ h1]) simp_all
  qed
  show ?thesis
    by (intro exI [of _ ?outs] conjI) (use d e s w in simp_all)
qed

theorem iterable_result_output_is_list_witness:
  "decorated_function (spawns [parse_table, parse_table] []) [] [] [plain_node parse_op False PNone None []]
     = (Inr ([PNode 1, PNode 2], PList []),
        [plain_node parse_op False PNone None [], plain_node parse_table False PNone None [],
         plain_node parse_table False PNone None []])
   \<and> output' (snd (do_my_work test_registry [plain_node parse_op False PNone None []] 0) ! 0) = PList []
   \<and> decorated_function (spawns [roll_table] [PInt 7]) [] [] [] 
       = (Inr ([PNode 0], PList [PInt 7]), [plain_node roll_table False PNone None []])"
proof -
  let ?h = "[plain_node parse_op False PNone None []]"
  let ?h1 = "[plain_node parse_op False PNone None [], plain_node parse_table False PNone None [],
         plain_node parse_table False PNone None []]"
  have r: "spawns [parse_table, parse_table] [] [] [] ?h = (Inr (PList [PNode 1, PNode 2]), ?h1)"
    by (simp add: spawns_def WorkNode_init_plain)
  have r2: "spawns [roll_table] [PInt 7] [] [] [] = (Inr (PList [PNode 0, PInt 7]), [plain_node roll_table False PNone None []])"
    by (simp add: spawns_def WorkNode_init_plain)
  have w: "do_my_work test_registry ?h 0 = (Inr (), snd (do_my_work test_registry ?h 0))"
    by (simp add: run_defs)
  have reg: "test_registry (work_type (?h ! 0)) = Some (decorated_function (spawns [parse_table, parse_table] []))"
    by (simp add: test_registry_def plain_node_def)
  show ?thesis
    using iterable_result_output_is_list
            [of "spawns [parse_table, parse_table] []" "[]" "[]" ?h "PList [PNode 1, PNode 2]" ?h1]
          iterable_result_output_is_list
            [of "spawns [roll_table] [PInt 7]" "[]" "[]" "[]" "PList [PNode 0, PInt 7]"
                "[plain_node roll_table False PNone None []]"]
          r r2 w reg
    by (simp add: plain_node_def)
qed


text \<open>The constructor called with both keyword arguments spelled out.\<close>

lemma WorkNode_init_keywords:
  "WorkNode_init wt [a] [(''name'', nm), (''parent'', pv)] h =
     (case assign_parent (h @ [\<lparr>work_type = wt, args = a, kwargs = [], finished = False,
                                output' = PNone, name = PNone, parent = None, children = []\<rparr>])
             (length h) pv of
        Inl e \<Rightarrow> (Inl e, h @ [\<lparr>work_type = wt, args = a, kwargs = [], finished = False,
                                output' = PNone, name = PNone, parent = None, children = []\<rparr>])
      | Inr h2 \<Rightarrow>
          (Inr (length h),
           h2[length h := (h2 ! length h)\<lparr>name := (if truthy nm then nm else PStr (default_name wt))\<rparr>]))"
  by (simp add: WorkNode_init_def bind_arguments_def Let_def)

text \<open>
  Claim C8, as amended. \<^verbatim>\<open>WorkNode(work_type, args=(), *, name=None, parent=None)\<close>
  has no \<^verbatim>\<open>kwargs\<close> parameter, and \<^verbatim>\<open>name\<close> and \<^verbatim>\<open>parent\<close> are keyword-only: a
  \<^verbatim>\<open>kwargs\<close> keyword or a third positional argument raises \<^verbatim>\<open>TypeError\<close>. Called with
  the parameters it has, where the parent is \<^verbatim>\<open>None\<close> or an existing node, it constructs
  a node with the given work type and arguments, with \<open>kwargs\<close> the empty dictionary,
  \<open>finished\<close> false, no output, no children, and as name the given one or, when that is
  missing (or falsy), the name of the work type in single quotes; when a parent node is
  given, the new node's \<open>parent\<close> is that node and the new node is appended to that
  node's children; nothing else changes. Omitted arguments take the defaults
  \<^verbatim>\<open>()\<close> and \<^verbatim>\<open>None\<close>.
\<close>

theorem WorkNode_init_constructs:
  assumes ok: "heap_ok h" and pv: "pv = PNone \<or> (\<exists>p. pv = PNode p \<and> p < length h)"
  shows "\<exists>h'. WorkNode_init wt [a] [(''name'', nm), (''parent'', pv)] h = (Inr (length h), h')
       \<and> length h' = Suc (length h)
       \<and> work_type (h' ! length h) = wt \<and> args (h' ! length h) = a \<and> kwargs (h' ! length h) = []
       \<and> \<not> finished (h' ! length h) \<and> output' (h' ! length h) = PNone
       \<and> name (h' ! length h) = (if truthy nm then nm else PStr (default_name wt))
       \<and> children (h' ! length h) = []
       \<and> (pv = PNone \<longrightarrow> parent (h' ! length h) = None \<and> (\<forall>i<length h. h' ! i = h ! i))
       \<and> (\<forall>p. pv = PNode p \<longrightarrow> parent (h' ! length h) = Some p
              \<and> h' ! p = (h ! p)\<lparr>children := children (h ! p) @ [length h]\<rparr>
              \<and> (\<forall>i<length h. i \<noteq> p \<longrightarrow> h' ! i = h ! i))
       \<and> WorkNode_init wt [] [] h = WorkNode_init wt [PTuple []] [(''name'', PNone), (''parent'', PNone)] h
       \<and> WorkNode_init wt [a] [] h = WorkNode_init wt [a] [(''name'', PNone), (''parent'', PNone)] h
       \<and> (\<forall>v kw. WorkNode_init wt [a] ((''kwargs'', v) # kw) h = (Inl TypeError, h))
       \<and> (\<forall>x y. WorkNode_init wt [a, x, y] [] h = (Inl TypeError, h))"
proof -
  let ?n = "\<lparr>work_type = wt, args = a, kwargs = [], finished = False,
             output' = PNone, name = PNone, parent = None, children = []\<rparr>"
  let ?nm = "if truthy nm then nm else PStr (default_name wt)"
  have d1: "WorkNode_init wt [] [] h = WorkNode_init wt [PTuple []] [(''name'', PNone), (''parent'', PNone)] h"
    by (simp add: WorkNode_init_def bind_arguments_def)
  have d2: "WorkNode_init wt [a] [] h = WorkNode_init wt [a] [(''name'', PNone), (''parent'', PNone)] h"
    by (simp add: WorkNode_init_def bind_arguments_def)
  have t1: "\<forall>v kw. WorkNode_init wt [a] ((''kwargs'', v) # kw) h = (Inl TypeError, h)"
    by (simp add: WorkNode_init_def bind_arguments_def)
  have t2: "\<forall>x y. WorkNode_init wt [a, x, y] [] h = (Inl TypeError, h)"
    by (simp add: WorkNode_init_def bind_arguments_def)
  from pv show ?thesis
  proof
    assume none: "pv = PNone"
    have "WorkNode_init wt [a] [(''name'', nm), (''parent'', pv)] h = (Inr (length h), h @ [?n\<lparr>name := ?nm\<rparr>])"
      unfolding WorkNode_init_keywords by (simp add: none set_parent_def)
    then show ?thesis using d1 d2 t1 t2 none
      by (intro exI [of _ "h @ [?n\<lparr>name := ?nm\<rparr>]"]) (simp add: nth_append)
  next
    assume "\<exists>p. pv = PNode p \<and> p < length h"
    then obtain p where p: "pv = PNode p" "p < length h" by blast
    let ?g = "h @ [?n]"
    have par: "\<forall>i<length h. \<forall>q. parent (?g ! i) = Some q \<longrightarrow> q < length h"
      using heap_okD(1) [OF ok] by (simp add: nth_append)
    have path: "length h \<notin> set (iter_path_reverse (length ?g) ?g p)"
    proof
      assume "length h \<in> set (iter_path_reverse (length ?g) ?g p)"
      then have "length h < length h" by (rule iter_path_reverse_bound [OF par p(2)])
      then show False by simp
    qed
    have kids: "length h \<notin> set (children (?g ! p))"
    proof
      assume "length h \<in> set (children (?g ! p))"
      then have "length h \<in> set (children (h ! p))" using p(2) by (simp add: nth_append)
      then have "length h < length h" by (rule heap_okD(2) [OF ok p(2)])
      then show False by simp
    qed
    have sp: "set_parent ?g (length h) (Some p) =
           Inr (?g[p := (?g ! p)\<lparr>children := children (?g ! p) @ [length h]\<rparr>,
                   length h := (?g ! length h)\<lparr>parent := Some p\<rparr>])"
      using p(2) by (intro set_parent_fresh path kids) simp_all
    let ?h' = "h[p := (h ! p)\<lparr>children := children (h ! p) @ [length h]\<rparr>] @ [?n\<lparr>parent := Some p, name := ?nm\<rparr>]"
    have "WorkNode_init wt [a] [(''name'', nm), (''parent'', pv)] h = (Inr (length h), ?h')"
      unfolding WorkNode_init_keywords using p(2)
      by (simp add: p(1) sp nth_append list_update_append)
    then show ?thesis using d1 d2 t1 t2 p
      by (intro exI [of _ ?h']) (simp add: nth_append nth_update_if)
  qed
qed

theorem WorkNode_init_constructs_witness:
  "WorkNode_init parse_table [PTuple [PInt 1]] [(''name'', PNone), (''parent'', PNode 0)]
      [plain_node parse_op False PNone None []]
     = (Inr 1,
        [plain_node parse_op False PNone None [1],
         \<lparr>work_type = parse_table, args = PTuple [PInt 1], kwargs = [], finished = False,
          output' = PNone, name = PStr (default_name parse_table), parent = Some 0, children = []\<rparr>])
   \<and> default_name parse_table = [CHR 0x27] @ ''parse_table'' @ [CHR 0x27]"
proof -
  let ?h = "[plain_node parse_op False PNone None []]"
  have ok: "heap_ok ?h" by (simp add: heap_ok_def plain_node_def)
  have pv: "PNode 0 = PNone \<or> (\<exists>p. PNode 0 = PNode p \<and> p < length ?h)" by simp
  obtain r g where run: "WorkNode_init parse_table [PTuple [PInt 1]] [(''name'', PNone), (''parent'', PNode 0)] ?h = (r, g)"
    by (cases "WorkNode_init parse_table [PTuple [PInt 1]] [(''name'', PNone), (''parent'', PNode 0)] ?h")
  from WorkNode_init_constructs [OF ok pv, of parse_table "PTuple [PInt 1]" PNone] run
  have r: "r = Inr 1" and l: "length g = 2"
    and n: "work_type (g ! 1) = parse_table" "args (g ! 1) = PTuple [PInt 1]" "kwargs (g ! 1) = []"
      "\<not> finished (g ! 1)" "output' (g ! 1) = PNone" "name (g ! 1) = PStr (default_name parse_table)"
      "children (g ! 1) = []" "parent (g ! 1) = Some 0"
    and z: "g ! 0 = plain_node parse_op False PNone None [1]"
    by (simp_all add: plain_node_def)
  have "g = [g ! 0, g ! 1]" using l by (auto simp: list_eq_iff_nth_eq less_Suc_eq numeral_2_eq_2)
  moreover have "g ! 1 = \<lparr>work_type = parse_table, args = PTuple [PInt 1], kwargs = [], finished = False,
          output' = PNone, name = PStr (default_name parse_table), parent = Some 0, children = []\<rparr>"
    using n by (cases "g ! 1") simp
  ultimately show ?thesis using run r z by (simp add: default_name_def)
qed

text \<open>
  Claim C8 as stated fails: the calls \<^verbatim>\<open>WorkNode(parse_op, (), kwargs={})\<close>,
  \<^verbatim>\<open>WorkNode(parse_op, (), {})\<close> and \<^verbatim>\<open>WorkNode(parse_op, (), {}, "n", None)\<close> raise
  \<^verbatim>\<open>TypeError\<close>, and no node is constructed.
\<close>

theorem WorkNode_init_kwargs_counterexample:
  "WorkNode_init parse_op [PTuple []] [(''kwargs'', PDict [])] [] = (Inl TypeError, [])
   \<and> WorkNode_init parse_op [PTuple [], PDict []] [] [] = (Inl TypeError, [])
   \<and> WorkNode_init parse_op [PTuple [], PDict [], PStr ''n'', PNone] [] [] = (Inl TypeError, [])"
  by (simp add: WorkNode_init_def bind_arguments_def)





lemma do_all_work_post:
  assumes "registry_ok wr" and "heap_ok h" and "root < length h"
    and "preorder h [root] l" and "distinct l"
    and "do_all_work fuel wr h root = Some (r, h', log)"
  shows "iter_post h [root] l r h' log"
proof -
  have "set l \<subseteq> {..<length h}"
    using preorder_bound [OF assms(4) assms(2)] assms(3) by simp
  with assms show ?thesis
    by (intro iter_work_post [of wr fuel h "[root]" r h' log l]) (simp_all add: do_all_work_def)
qed

lemma do_all_work_kinds:
  assumes "registry_ok wr" and "heap_ok h" and "root < length h"
    and "do_all_work fuel wr h root = Some (r, h', log)"
  shows "\<forall>i<length h. work_type (h' ! i) = work_type (h ! i)"
    and "\<forall>n \<in> set (if r = Inr () then log else butlast log). wr (work_type (h' ! n)) \<noteq> None"
    and "\<forall>e. r = Inl e \<longrightarrow> log \<noteq> [] \<and>
         (\<exists>hb. do_my_work wr hb (last log) = (Inl e, h') \<and> last log < length hb \<and> heap_ok hb)"
  using iter_work_kinds [OF assms(1), of fuel h "[root]" r h' log] assms(2-4)
  by (simp_all add: do_all_work_def)

lemma heap_ok_single: "heap_ok [plain_node wt fin out None []]"
  by (simp add: heap_ok_def plain_node_def)

lemma preorder_single: "preorder [plain_node wt fin out None []] [0] [0]"
proof -
  have "preorder [plain_node wt fin out None []] (children ([plain_node wt fin out None []] ! 0)) []"
    by (simp add: plain_node_def preorder_Nil)
  from preorder_Cons [OF this preorder_Nil] show ?thesis by simp
qed











text \<open>
  Claim C5. Under the assumptions of C1, when \<^verbatim>\<open>do_all_work\<close> ends with an exception,
  the exception is the one raised by \<^verbatim>\<open>do_my_work\<close> of the node logged last, and the
  store is the one that call left. That node is as it was: unchanged if it existed
  when \<^verbatim>\<open>do_all_work\<close> was called, still unfinished and without output if it was
  created during the call. Every node logged before it is finished. The log is an
  initial segment of the pre-order listing of the tree: the nodes after the failing
  one in pre-order are not in the log, and those among them that existed at the start
  are unchanged.
\<close>

theorem do_all_work_failure:
  assumes "registry_ok wr" and "heap_ok h" and "root < length h"
    and "preorder h [root] l" and "distinct l"
    and "do_all_work fuel wr h root = Some (Inl e, h', log)"
  shows "log \<noteq> [] \<and> distinct log
       \<and> (\<exists>hb. do_my_work wr hb (last log) = (Inl e, h'))
       \<and> (last log < length h \<longrightarrow> h' ! last log = h ! last log)
       \<and> (length h \<le> last log \<longrightarrow> \<not> finished (h' ! last log) \<and> output' (h' ! last log) = PNone)
       \<and> (\<forall>n \<in> set (butlast log). finished (h' ! n))
       \<and> (\<exists>rest. preorder h' [root] (log @ rest) \<and> distinct (log @ rest)
              \<and> (\<forall>n \<in> set rest. n < length h \<longrightarrow> h' ! n = h ! n))"
proof -
  from do_all_work_post [OF assms] obtain l' where
    fr: "\<And>i. i < length h \<Longrightarrow> i \<notin> set log \<Longrightarrow> h' ! i = h ! i"
    and p: "preorder h' [root] l'" and d: "distinct l'"
    and x: "\<exists>rest. l' = log @ rest"
    and f: "\<And>n. n \<in> set (butlast log) \<Longrightarrow> finished (h' ! n)"
    and ne: "log \<noteq> []"
    and old: "last log < length h \<Longrightarrow> h' ! last log = h ! last log"
    and new: "length h \<le> last log \<Longrightarrow>
           children (h' ! last log) = [] \<and> \<not> finished (h' ! last log) \<and> output' (h' ! last log) = PNone"
    by (rule iter_postE) simp_all
  from x obtain rest where l': "l' = log @ rest" by blast
  have o: "\<exists>hb. do_my_work wr hb (last log) = (Inl e, h')"
    using do_all_work_kinds(3) [OF assms(1-3) assms(6)] by blast
  have r: "preorder h' [root] (log @ rest) \<and> distinct (log @ rest)
              \<and> (\<forall>n \<in> set rest. n < length h \<longrightarrow> h' ! n = h ! n)"
  proof (intro conjI ballI impI)
    show "preorder h' [root] (log @ rest)" using p l' by simp
    show "distinct (log @ rest)" using d l' by simp
    fix n assume "n \<in> set rest" "n < length h"
    moreover from this have "n \<notin> set log" using d l' by auto
    ultimately show "h' ! n = h ! n" using fr by simp
  qed
  have dl: "distinct log" using d l' by simp
  show ?thesis
    using ne dl o old new f r by blast
qed

theorem do_all_work_failure_witness:
  "do_all_work 4 test_registry [plain_node username_mention False PNone None []] 0 =
     Some (Inl (Raised ''link''),
           [plain_node username_mention True (PList []) None [1, 2, 3],
            plain_node parse_table True leaf_output (Some 0) [],
            plain_node follow_link False PNone (Some 0) [],
            plain_node parse_table False PNone (Some 0) []],
           [0, 1, 2])
   \<and> \<not> finished (plain_node follow_link False PNone (Some 0) [])
   \<and> output' (plain_node follow_link False PNone (Some 0) []) = PNone
   \<and> finished (plain_node username_mention True (PList []) None [1, 2, 3])
   \<and> finished (plain_node parse_table True leaf_output (Some 0) [])"
proof -
  have lt: "0 < length [plain_node username_mention False PNone None []]" by simp
  have d: "distinct [0::nat]" by simp
  from do_all_work_failure
         [OF registry_ok_test_registry heap_ok_single lt preorder_single d run_failure]
  show ?thesis using run_failure by simp
qed

text \<open>
  Claim C7. A node whose work type has no resolver makes \<^verbatim>\<open>do_my_work\<close> raise
  \<^verbatim>\<open>KeyError\<close> (the specification's UnregisteredKindError) at the lookup, before
  anything is written, and \<^verbatim>\<open>do_all_work\<close> ends there with that exception. So, under
  the assumptions of C1, if the log of a run holds a node whose work type has no
  resolver, the run ended with \<^verbatim>\<open>KeyError\<close>, that node is the last one logged, and it is
  as it was: unchanged if it existed at the start, unfinished if it was created during
  the call.
\<close>

theorem do_all_work_unregistered:
  assumes "registry_ok wr" and "heap_ok h" and "root < length h"
    and "preorder h [root] l" and "distinct l"
    and "do_all_work fuel wr h root = Some (r, h', log)"
    and "n \<in> set log" and "wr (work_type (h' ! n)) = None"
  shows "r = Inl KeyError \<and> n = last log
       \<and> (n < length h \<longrightarrow> h' ! n = h ! n) \<and> (length h \<le> n \<longrightarrow> \<not> finished (h' ! n))
       \<and> (\<forall>g c f rest. wr (work_type (g ! c)) = None \<longrightarrow>
              iter_work (Suc f) wr g (c # rest) = Some (Inl KeyError, g, [c]))"
proof -
  note k = do_all_work_kinds [OF assms(1-3) assms(6)]
  have nr: "r \<noteq> Inr ()"
  proof
    assume "r = Inr ()"
    then have "wr (work_type (h' ! n)) \<noteq> None" using k(2) assms(7) by simp
    then show False using assms(8) by simp
  qed
  then obtain e where e: "r = Inl e" by (cases r) auto
  then obtain hb where ne: "log \<noteq> []" and dm: "do_my_work wr hb (last log) = (Inl e, h')"
    and lb: "last log < length hb" and okb: "heap_ok hb"
    using k(3) by blast
  have "n \<notin> set (butlast log)" using k(2) e assms(8) by auto
  then have n: "n = last log" using assms(7) ne
    by (metis append_butlast_last_id in_set_conv_decomp_first insert_iff list.set(2) set_append Un_iff empty_iff empty_set)
  from do_my_work_failure [OF assms(1) okb lb dm] obtain new where h': "h' = hb @ new" by blast
  have "work_type (h' ! n) = work_type (hb ! n)" using lb n by (simp add: h' nth_append)
  then have "wr (work_type (hb ! last log)) = None" using assms(8) n by simp
  then have "do_my_work wr hb (last log) = (Inl KeyError, hb)" by (simp add: do_my_work_def)
  with dm have ek: "e = KeyError" by simp
  from do_all_work_post [OF assms(1-6)] have
    old: "last log < length h \<Longrightarrow> h' ! last log = h ! last log"
    and new: "length h \<le> last log \<Longrightarrow>
           children (h' ! last log) = [] \<and> \<not> finished (h' ! last log) \<and> output' (h' ! last log) = PNone"
    using nr by (auto elim: iter_postE)
  have loc: "\<forall>g c f rest. wr (work_type (g ! c)) = None \<longrightarrow>
              iter_work (Suc f) wr g (c # rest) = Some (Inl KeyError, g, [c])"
    by (simp add: do_my_work_def)
  show ?thesis using e ek n old new loc by simp
qed

theorem do_all_work_unregistered_witness:
  "test_registry parse_arbitrary_text_for_table = None
   \<and> do_all_work 2 test_registry [plain_node parse_comment_for_table False PNone None []] 0 =
     Some (Inl KeyError,
           [plain_node parse_comment_for_table True (PList []) None [1],
            plain_node parse_arbitrary_text_for_table False PNone (Some 0) []],
           [0, 1])
   \<and> \<not> finished (plain_node parse_arbitrary_text_for_table False PNone (Some 0) [])"
proof -
  let ?h' = "[plain_node parse_comment_for_table True (PList []) None [1],
            plain_node parse_arbitrary_text_for_table False PNone (Some 0) []]"
  have lt: "0 < length [plain_node parse_comment_for_table False PNone None []]" by simp
  have d: "distinct [0::nat]" by simp
  have m: "1 \<in> set [0, 1 :: nat]" by simp
  have u: "test_registry (work_type (?h' ! 1)) = None"
    by (simp add: test_registry_def plain_node_def)
  from do_all_work_unregistered
         [OF registry_ok_test_registry heap_ok_single lt preorder_single d run_unregistered m u]
  show ?thesis using run_unregistered u by (simp add: plain_node_def)
qed

end
